theory Spec2Isabelle
  imports Main
begin

section \<open>Values, promises and module-level state\<close>

text \<open>
  Pique is a JavaScript promise queue. The model keeps the objects the source creates:
  the module variable \<open>LocalPromise\<close>, the promises built with \<open>new LocalPromise\<close>
  (a store, indexed by allocation order), the entries
  \<open>{fn, localResolve, localReject}\<close> of \<open>_promiseFunctionArray\<close> and the chain of
  promises that \<open>_globalPromise\<close> is the end of.

  A promise constructor is a number naming the implementation (native, lie, ...); every
  implementation is taken to follow ES2015. A value is a plain value or a thenable: an
  object with a callable \<open>then\<close>, such as a promise of any implementation (one returned
  by this queue included). Thenables are named by numbers; what a thenable does is up
  to it.
\<close>

datatype jsval = Undefined | Bool bool | Num int | Str string | Thenable nat

type_synonym promiseCtor = nat

text \<open>
  The state of a promise made by \<open>new LocalPromise\<close>:
  \<^item> \<open>Pending\<close>: pending, and neither its resolve nor its reject function has been
    called;
  \<^item> \<open>Following t\<close>: its resolve function was called with the thenable \<open>t\<close>. The promise
    is still pending for an observer, its own two functions do nothing any more, and it
    waits for \<open>t\<close> to call one of the two functions that \<open>t.then\<close> was given;
  \<^item> \<open>Fulfilled v\<close>, \<open>Rejected v\<close>: settled.
\<close>

datatype settled = Pending | Following nat | Fulfilled jsval | Rejected jsval

record promise =
  maker :: promiseCtor
  state :: settled

datatype error = TypeError | ConfigError

text \<open>The resolve and the reject function of the promise at an index of the store.\<close>

datatype resolveOrRejectFn = ResolveOf nat | RejectOf nat

record 'f entry =
  fn :: 'f
  localResolve :: resolveOrRejectFn
  localReject :: resolveOrRejectFn

text \<open>
  \<open>_globalPromise\<close> is \<open>LocalPromise.resolve(true)\<close> followed by one \<open>.then(callback)\<close>
  per submission. Link \<open>k\<close> of the list is the promise returned by the \<open>k\<close>-th \<open>then\<close>:
  \<^item> \<open>Waiting\<close>: its callback has not run, the promise is pending;
  \<^item> \<open>Running e\<close>: the callback ran, shifted \<open>e\<close> off the array and called \<open>e.fn\<close>; the
    promise follows the inner promise, which is pending;
  \<^item> \<open>Done e\<close>: \<open>globalResolve\<close> of the inner promise was called, the promise is fulfilled;
  \<^item> \<open>Failed x\<close>: the promise is rejected; \<open>x\<close> is the entry whose function threw, or
    \<open>None\<close> when no function was called.
\<close>

datatype 'f link = Waiting | Running "'f entry" | Done "'f entry" | Failed "'f entry option"

record 'f pique =
  globalPromise :: "'f link list"
  promiseFunctionArray :: "'f entry list"

text \<open>
  The state shared by all queues: the module variable, the promise store, and two logs
  of what an observer sees: the entries whose function was called, and the promises
  settled, both in time order.
\<close>

record 'f globals =
  LocalPromise :: "promiseCtor option"
  promises :: "promise list"
  invoked :: "'f entry list"
  settlements :: "nat list"

section \<open>The source functions\<close>

text \<open>\<open>function Pique () { this._globalPromise = LocalPromise.resolve(true); ... }\<close>:
  reading \<open>resolve\<close> off an undefined \<open>LocalPromise\<close> throws a TypeError.\<close>

definition Pique :: "'f globals \<Rightarrow> error + 'f pique" where
  "Pique m =
     (case LocalPromise m of
        None \<Rightarrow> Inl TypeError
      | Some P \<Rightarrow> Inr \<lparr>globalPromise = [], promiseFunctionArray = []\<rparr>)"

text \<open>\<open>Pique.configure = function (promiseCtor) { LocalPromise = promiseCtor; }\<close>\<close>

definition configure :: "promiseCtor option \<Rightarrow> 'f globals \<Rightarrow> 'f globals" where
  "configure promiseCtor m = m\<lparr>LocalPromise := promiseCtor\<rparr>"

text \<open>
  What the promise implementation does (ES2015, 25.4.1.3). A resolve function called
  with a thenable makes the promise follow it; called with any other value it fulfils
  the promise. A reject function rejects with the value it is given, thenable or not.
  (Resolving a promise with itself, or with an object whose \<open>then\<close> getter throws,
  rejects it at once: here that is \<open>Following\<close> and a rejection by the thenable right
  after.)
\<close>

fun following :: "settled \<Rightarrow> bool" where
  "following (Following t) = True"
| "following s = False"

fun resolution :: "jsval \<Rightarrow> settled" where
  "resolution (Thenable t) = Following t"
| "resolution v = Fulfilled v"

text \<open>Writing a new state into the promise at index \<open>p\<close>; a settlement is logged.\<close>

definition put :: "nat \<Rightarrow> settled \<Rightarrow> 'f globals \<Rightarrow> 'f globals" where
  "put p s m =
     m\<lparr>promises := (promises m)[p := (promises m ! p)\<lparr>state := s\<rparr>],
       settlements := (if following s then settlements m else settlements m @ [p])\<rparr>"

text \<open>The resolve and the reject function of a promise work once, between them: after
  the first call of either, calls of both do nothing.\<close>

definition settle :: "nat \<Rightarrow> settled \<Rightarrow> 'f globals \<Rightarrow> 'f globals" where
  "settle p s m =
     (if p < length (promises m) \<and> state (promises m ! p) = Pending then put p s m else m)"

fun applyFn :: "resolveOrRejectFn \<Rightarrow> jsval \<Rightarrow> 'f globals \<Rightarrow> 'f globals" where
  "applyFn (ResolveOf p) v m = settle p (resolution v) m"
| "applyFn (RejectOf p) v m = settle p (Rejected v) m"

text \<open>
  A promise that follows a thenable handed two fresh functions to the thenable's
  \<open>then\<close>. The first call of either decides the promise: the first function works like
  a resolve function (given a thenable again, the promise follows that one), the second
  rejects.
\<close>

definition adopt :: "nat \<Rightarrow> settled \<Rightarrow> 'f globals \<Rightarrow> 'f globals" where
  "adopt p s m =
     (if p < length (promises m) \<and> following (state (promises m ! p)) then put p s m else m)"

text \<open>The \<open>globalResolve\<close> of the inner promise made by the callback of link \<open>k\<close>.\<close>

definition globalResolve :: "nat \<Rightarrow> 'f pique \<Rightarrow> 'f pique" where
  "globalResolve k self =
     (if k < length (globalPromise self)
      then (case globalPromise self ! k of
              Running e \<Rightarrow> self\<lparr>globalPromise := (globalPromise self)[k := Done e]\<rparr>
            | _ \<Rightarrow> self)
      else self)"

text \<open>\<open>function finishPromise (localFn, globalResolveFn) {
    return function (value) { localFn(value); globalResolveFn(); }; }\<close>\<close>

definition finishPromise ::
  "resolveOrRejectFn \<Rightarrow> ('f pique \<Rightarrow> 'f pique) \<Rightarrow> jsval \<Rightarrow>
   'f pique \<times> 'f globals \<Rightarrow> 'f pique \<times> 'f globals" where
  "finishPromise localFn globalResolveFn v w =
     (case w of (self, m) \<Rightarrow> (globalResolveFn self, applyFn localFn v m))"

text \<open>
  \<open>_changeQueue\<close> of the unbundled module: the guard, then \<open>new LocalPromise(executor)\<close>;
  the executor runs at once, hands the entry to \<open>unshiftOrPushFn\<close> and extends
  \<open>_globalPromise\<close> by one \<open>then\<close>. The new promise is returned.
\<close>

definition changeQueue ::
  "'f \<Rightarrow> ('f entry \<Rightarrow> 'f pique \<Rightarrow> 'f pique) \<Rightarrow> 'f pique \<times> 'f globals \<Rightarrow>
   error + (nat \<times> 'f pique \<times> 'f globals)" where
  "changeQueue f unshiftOrPushFn w =
     (case w of (self, m) \<Rightarrow>
        (case LocalPromise m of
           None \<Rightarrow> Inl ConfigError
         | Some P \<Rightarrow>
             (let p = length (promises m);
                  m' = m\<lparr>promises := promises m @ [\<lparr>maker = P, state = Pending\<rparr>]\<rparr>;
                  self' = unshiftOrPushFn
                            \<lparr>fn = f, localResolve = ResolveOf p, localReject = RejectOf p\<rparr> self;
                  self'' = self'\<lparr>globalPromise := globalPromise self' @ [Waiting]\<rparr>
              in Inr (p, self'', m'))))"

text \<open>The copy inside the webpack bundle has no guard: \<open>new LocalPromise\<close> on an
  undefined variable throws a TypeError.\<close>

definition changeQueue_bundled ::
  "'f \<Rightarrow> ('f entry \<Rightarrow> 'f pique \<Rightarrow> 'f pique) \<Rightarrow> 'f pique \<times> 'f globals \<Rightarrow>
   error + (nat \<times> 'f pique \<times> 'f globals)" where
  "changeQueue_bundled f unshiftOrPushFn w =
     (case w of (self, m) \<Rightarrow>
        (case LocalPromise m of
           None \<Rightarrow> Inl TypeError
         | Some P \<Rightarrow>
             (let p = length (promises m);
                  m' = m\<lparr>promises := promises m @ [\<lparr>maker = P, state = Pending\<rparr>]\<rparr>;
                  self' = unshiftOrPushFn
                            \<lparr>fn = f, localResolve = ResolveOf p, localReject = RejectOf p\<rparr> self;
                  self'' = self'\<lparr>globalPromise := globalPromise self' @ [Waiting]\<rparr>
              in Inr (p, self'', m'))))"

definition push ::
  "'f \<Rightarrow> 'f pique \<times> 'f globals \<Rightarrow> error + (nat \<times> 'f pique \<times> 'f globals)" where
  "push f w =
     changeQueue f
       (\<lambda>v self. self\<lparr>promiseFunctionArray := promiseFunctionArray self @ [v]\<rparr>) w"

definition unshift ::
  "'f \<Rightarrow> 'f pique \<times> 'f globals \<Rightarrow> error + (nat \<times> 'f pique \<times> 'f globals)" where
  "unshift f w =
     changeQueue f
       (\<lambda>v self. self\<lparr>promiseFunctionArray := v # promiseFunctionArray self\<rparr>) w"

section \<open>The callback of a link, and the events of a run\<close>

text \<open>
  The callback given to \<open>then\<close>:
  \<open>function () { return new LocalPromise(function (globalResolve) {
      var nextPromise = self._promiseFunctionArray.shift();
      nextPromise.fn(finishPromise(nextPromise.localResolve, globalResolve),
                     finishPromise(nextPromise.localReject, globalResolve)); }); }\<close>
  With no \<open>LocalPromise\<close> the \<open>new\<close> throws; on an empty array \<open>shift()\<close> gives
  \<open>undefined\<close> and \<open>nextPromise.fn\<close> throws. Either way link \<open>k\<close> is rejected.
\<close>

definition callback :: "nat \<Rightarrow> 'f pique \<times> 'f globals \<Rightarrow> 'f pique \<times> 'f globals" where
  "callback k w =
     (case w of (self, m) \<Rightarrow>
        (case LocalPromise m of
           None \<Rightarrow> (self\<lparr>globalPromise := (globalPromise self)[k := Failed None]\<rparr>, m)
         | Some P \<Rightarrow>
             (case promiseFunctionArray self of
                [] \<Rightarrow> (self\<lparr>globalPromise := (globalPromise self)[k := Failed None]\<rparr>, m)
              | nextPromise # rest \<Rightarrow>
                  (self\<lparr>promiseFunctionArray := rest,
                        globalPromise := (globalPromise self)[k := Running nextPromise]\<rparr>,
                   m\<lparr>invoked := invoked m @ [nextPromise]\<rparr>))))"

text \<open>
  The reaction that \<open>then\<close> registered for link \<open>k\<close> looks at the promise before it only:
  fulfilled (link \<open>k - 1\<close> is \<open>Done\<close>, or \<open>k = 0\<close>, where it is
  \<open>LocalPromise.resolve(true)\<close>), the callback runs; rejected, the rejection is passed
  on; pending, nothing happens yet.
\<close>

definition fire :: "nat \<Rightarrow> 'f pique \<times> 'f globals \<Rightarrow> 'f pique \<times> 'f globals" where
  "fire k w =
     (case w of (self, m) \<Rightarrow>
        if k < length (globalPromise self) \<and> globalPromise self ! k = Waiting
        then (if k = 0 then callback k w
              else (case globalPromise self ! (k - 1) of
                      Done e \<Rightarrow> callback k w
                    | Failed x \<Rightarrow>
                        (self\<lparr>globalPromise := (globalPromise self)[k := Failed None]\<rparr>, m)
                    | _ \<Rightarrow> w))
        else w)"

text \<open>The entry whose function the callback of a link has called, if it has.\<close>

fun entryOf :: "'f link \<Rightarrow> 'f entry option" where
  "entryOf Waiting = None"
| "entryOf (Running e) = Some e"
| "entryOf (Done e) = Some e"
| "entryOf (Failed x) = x"

definition linkEntry :: "nat \<Rightarrow> 'f pique \<Rightarrow> 'f entry option" where
  "linkEntry k self =
     (if k < length (globalPromise self) then entryOf (globalPromise self ! k) else None)"

text \<open>
  What can happen to one queue, one event at a time: a call of \<open>configure\<close>, \<open>push\<close> or
  \<open>unshift\<close>, the reaction of a link being run by the host, what a unit does once
  it has been called, and what a thenable does that a promise follows.
  \<^item> The unit called by link \<open>k\<close> holds the two functions built by \<open>finishPromise\<close>;
    \<open>Succeed k v\<close> is a call of the first with \<open>v\<close>, \<open>Fail k v\<close> a call of the second, at
    any time after the unit was called and any number of times.
  \<^item> \<open>nextPromise.fn(...)\<close> is a method call, so the unit also has its entry as \<open>this\<close>:
    \<open>OwnResolve k v\<close> is the call \<open>this.localResolve(v)\<close> and \<open>OwnReject k v\<close> the call
    \<open>this.localReject(v)\<close>, which reach the promise and not the chain.
  \<^item> \<open>Throw k\<close> is the unit raising an exception before the inner promise is resolved,
    which rejects it.
  \<^item> \<open>ThenResolve p v\<close> and \<open>ThenReject p v\<close> are the thenable that promise \<open>p\<close> follows
    calling the first or the second function its \<open>then\<close> was given.

  A submission that throws leaves the state as it was, and an event that cannot happen
  yet (a reaction whose promise is pending, a call of functions that no unit has been
  handed, a thenable that no promise follows) changes nothing. Which events happen,
  and when, is up to the host, the units and the thenables: a property of the queue
  holds for every list of events.
\<close>

datatype 'f event =
    Configure "promiseCtor option"
  | Push 'f
  | Unshift 'f
  | Fire nat
  | Succeed nat jsval
  | Fail nat jsval
  | Throw nat
  | OwnResolve nat jsval
  | OwnReject nat jsval
  | ThenResolve nat jsval
  | ThenReject nat jsval

definition throw :: "nat \<Rightarrow> 'f pique \<Rightarrow> 'f pique" where
  "throw k self =
     (if k < length (globalPromise self)
      then (case globalPromise self ! k of
              Running e \<Rightarrow> self\<lparr>globalPromise := (globalPromise self)[k := Failed (Some e)]\<rparr>
            | _ \<Rightarrow> self)
      else self)"

fun step :: "'f event \<Rightarrow> 'f pique \<times> 'f globals \<Rightarrow> 'f pique \<times> 'f globals" where
  "step (Configure c) w = (fst w, configure c (snd w))"
| "step (Push f) w = (case push f w of Inl err \<Rightarrow> w | Inr (p, w') \<Rightarrow> w')"
| "step (Unshift f) w = (case unshift f w of Inl err \<Rightarrow> w | Inr (p, w') \<Rightarrow> w')"
| "step (Fire k) w = fire k w"
| "step (Succeed k v) w =
     (case linkEntry k (fst w) of
        None \<Rightarrow> w
      | Some e \<Rightarrow> finishPromise (localResolve e) (globalResolve k) v w)"
| "step (Fail k v) w =
     (case linkEntry k (fst w) of
        None \<Rightarrow> w
      | Some e \<Rightarrow> finishPromise (localReject e) (globalResolve k) v w)"
| "step (Throw k) w = (throw k (fst w), snd w)"
| "step (OwnResolve k v) w =
     (case linkEntry k (fst w) of
        None \<Rightarrow> w
      | Some e \<Rightarrow> (fst w, applyFn (localResolve e) v (snd w)))"
| "step (OwnReject k v) w =
     (case linkEntry k (fst w) of
        None \<Rightarrow> w
      | Some e \<Rightarrow> (fst w, applyFn (localReject e) v (snd w)))"
| "step (ThenResolve p v) w = (fst w, adopt p (resolution v) (snd w))"
| "step (ThenReject p v) w = (fst w, adopt p (Rejected v) (snd w))"

text \<open>A run is a list of events, taken in order.\<close>

fun exec :: "'f event list \<Rightarrow> 'f pique \<times> 'f globals \<Rightarrow> 'f pique \<times> 'f globals" where
  "exec [] w = w"
| "exec (ev # t) w = exec t (step ev w)"

fun isConfigure :: "'f event \<Rightarrow> bool" where
  "isConfigure (Configure c) = True"
| "isConfigure ev = False"

text \<open>
  The state after the module is loaded in a host whose \<open>global.Promise\<close> is \<open>c\<close>
  (\<open>var LocalPromise = global.Promise\<close>), and the state after \<open>new Pique()\<close> in a host
  that has a promise implementation \<open>P\<close>. The states a queue can reach are
  \<open>exec t (fresh P)\<close>.
\<close>

definition loaded :: "promiseCtor option \<Rightarrow> 'f globals" where
  "loaded c = \<lparr>LocalPromise = c, promises = [], invoked = [], settlements = []\<rparr>"

definition fresh :: "promiseCtor \<Rightarrow> 'f pique \<times> 'f globals" where
  "fresh P = (\<lparr>globalPromise = [], promiseFunctionArray = []\<rparr>, loaded (Some P))"

text \<open>The promise an entry belongs to, and the entry that a submission of \<open>f\<close> builds
  around the promise at index \<open>p\<close>.\<close>

definition pid :: "'f entry \<Rightarrow> nat" where
  "pid e = (case localResolve e of ResolveOf p \<Rightarrow> p | RejectOf p \<Rightarrow> p)"

definition entryFor :: "'f \<Rightarrow> nat \<Rightarrow> 'f entry" where
  "entryFor f p = \<lparr>fn = f, localResolve = ResolveOf p, localReject = RejectOf p\<rparr>"

text \<open>The entries called so far, then the entries still in the array, in array order.\<close>

definition timeline :: "'f pique \<times> 'f globals \<Rightarrow> 'f entry list" where
  "timeline w = invoked (snd w) @ promiseFunctionArray (fst w)"

section \<open>Invariants of a queue\<close>

text \<open>A fulfilled link, a rejected link, the entries that the callbacks of a chain have
  called (in chain order), and the number of links that have called none.\<close>

fun isDone :: "'f link \<Rightarrow> bool" where
  "isDone (Done e) = True"
| "isDone l = False"

fun isFailed :: "'f link \<Rightarrow> bool" where
  "isFailed (Failed x) = True"
| "isFailed l = False"

fun popped :: "'f link list \<Rightarrow> 'f entry list" where
  "popped [] = []"
| "popped (l # c) = (case entryOf l of None \<Rightarrow> popped c | Some e \<Rightarrow> e # popped c)"

definition unfired :: "'f link list \<Rightarrow> nat" where
  "unfired c = length (filter (\<lambda>l. entryOf l = None) c)"

text \<open>Links settle front to back: a link that is not waiting has only settled links
  before it, and a link whose callback has run has only fulfilled links before it.\<close>

definition ordered :: "'f link list \<Rightarrow> bool" where
  "ordered c \<longleftrightarrow>
     (\<forall>j < length c. c ! j \<noteq> Waiting \<longrightarrow> (\<forall>i < j. isDone (c ! i) \<or> isFailed (c ! i)))
     \<and> (\<forall>j < length c. entryOf (c ! j) \<noteq> None \<longrightarrow> (\<forall>i < j. isDone (c ! i)))"

text \<open>The log of calls is what the chain has called, and every entry in the array has a
  link whose callback has yet to run or was skipped.\<close>

definition chainOK :: "'f pique \<times> 'f globals \<Rightarrow> bool" where
  "chainOK w \<longleftrightarrow>
     ordered (globalPromise (fst w))
     \<and> popped (globalPromise (fst w)) = invoked (snd w)
     \<and> unfired (globalPromise (fst w)) = length (promiseFunctionArray (fst w))"

text \<open>Both functions of an entry belong to one promise; the entries called or pending
  have one promise each, and these are all the promises of the store.\<close>

definition wfEntry :: "'f entry \<Rightarrow> bool" where
  "wfEntry e \<longleftrightarrow> localResolve e = ResolveOf (pid e) \<and> localReject e = RejectOf (pid e)"

definition idsOK :: "'f pique \<times> 'f globals \<Rightarrow> bool" where
  "idsOK w \<longleftrightarrow>
     distinct (map pid (timeline w))
     \<and> set (map pid (timeline w)) = {..<length (promises (snd w))}
     \<and> (\<forall>e \<in> set (timeline w). wfEntry e)"

text \<open>While an entry is in the array neither function of its promise has been called,
  and once its link is fulfilled one of them has.\<close>

definition statesOK :: "'f pique \<times> 'f globals \<Rightarrow> bool" where
  "statesOK w \<longleftrightarrow>
     (\<forall>e \<in> set (promiseFunctionArray (fst w)). state (promises (snd w) ! pid e) = Pending)
     \<and> (\<forall>k < length (globalPromise (fst w)). \<forall>e.
           globalPromise (fst w) ! k = Done e \<longrightarrow> state (promises (snd w) ! pid e) \<noteq> Pending)"

definition invariant :: "'f pique \<times> 'f globals \<Rightarrow> bool" where
  "invariant w \<longleftrightarrow> chainOK w \<and> idsOK w \<and> statesOK w"

section \<open>Runs and what is observed of them\<close>

fun isUnshift :: "'f event \<Rightarrow> bool" where
  "isUnshift (Unshift f) = True"
| "isUnshift ev = False"

text \<open>The units of the submission calls of a run that returned a promise, in call
  order; \<open>c\<close> is the value of \<open>LocalPromise\<close> when the run starts.\<close>

fun submitted :: "promiseCtor option \<Rightarrow> 'f event list \<Rightarrow> 'f list" where
  "submitted c [] = []"
| "submitted c (Configure c' # t) = submitted c' t"
| "submitted c (Push f # t) = (if c = None then submitted c t else f # submitted c t)"
| "submitted c (Unshift f # t) = (if c = None then submitted c t else f # submitted c t)"
| "submitted c (ev # t) = submitted c t"

fun isPush :: "'f event \<Rightarrow> bool" where
  "isPush (Push f) = True"
| "isPush ev = False"

text \<open>An event that passes a thenable to the resolve function of a unit's promise.\<close>

fun isThenable :: "jsval \<Rightarrow> bool" where
  "isThenable (Thenable t) = True"
| "isThenable v = False"

fun passesThenable :: "'f event \<Rightarrow> bool" where
  "passesThenable (Succeed k v) = isThenable v"
| "passesThenable (OwnResolve k v) = isThenable v"
| "passesThenable ev = False"

text \<open>No promise follows a thenable, and the log of settlements lists the promises of
  the entries called whose unit has reported, in the order of the calls.\<close>

definition tidy :: "'f pique \<times> 'f globals \<Rightarrow> bool" where
  "tidy w \<longleftrightarrow>
     (\<forall>p < length (promises (snd w)). \<not> following (state (promises (snd w) ! p)))
     \<and> settlements (snd w) =
           map pid (filter (\<lambda>e. state (promises (snd w) ! pid e) \<noteq> Pending) (invoked (snd w)))"

text \<open>Two states that differ at most in what became of the promise at index \<open>p\<close>, and
  in when it was settled.\<close>

definition alike :: "nat \<Rightarrow> 'f pique \<times> 'f globals \<Rightarrow> 'f pique \<times> 'f globals \<Rightarrow> bool" where
  "alike p w w' \<longleftrightarrow>
     fst w = fst w'
     \<and> LocalPromise (snd w) = LocalPromise (snd w')
     \<and> invoked (snd w) = invoked (snd w')
     \<and> length (promises (snd w)) = length (promises (snd w'))
     \<and> p < length (promises (snd w))
     \<and> (\<forall>q < length (promises (snd w)). q \<noteq> p \<longrightarrow> promises (snd w) ! q = promises (snd w') ! q)
     \<and> maker (promises (snd w) ! p) = maker (promises (snd w') ! p)
     \<and> (state (promises (snd w) ! p) = Pending \<longleftrightarrow> state (promises (snd w') ! p) = Pending)"

text \<open>What an event asks of which promise. A report: the unit called by link \<open>k\<close> calls
  one of the two functions it was handed, or one of the two functions of its entry.
  An adoption: the thenable that a promise follows calls one of the two functions its
  \<open>then\<close> was given.\<close>

fun reportOf :: "'f event \<Rightarrow> 'f pique \<Rightarrow> (nat \<times> settled) option" where
  "reportOf (Succeed k v) self = map_option (\<lambda>e. (pid e, resolution v)) (linkEntry k self)"
| "reportOf (Fail k v) self = map_option (\<lambda>e. (pid e, Rejected v)) (linkEntry k self)"
| "reportOf (OwnResolve k v) self = map_option (\<lambda>e. (pid e, resolution v)) (linkEntry k self)"
| "reportOf (OwnReject k v) self = map_option (\<lambda>e. (pid e, Rejected v)) (linkEntry k self)"
| "reportOf ev self = None"

fun adoptOf :: "'f event \<Rightarrow> (nat \<times> settled) option" where
  "adoptOf (ThenResolve p v) = Some (p, resolution v)"
| "adoptOf (ThenReject p v) = Some (p, Rejected v)"
| "adoptOf ev = None"

text \<open>Whether an event is a call, by the unit that link \<open>k\<close> called, of one of the two
  functions it was handed (those that \<open>finishPromise\<close> built).\<close>

fun reportsOf :: "nat \<Rightarrow> 'f event \<Rightarrow> bool" where
  "reportsOf k (Succeed j v) = (j = k)"
| "reportsOf k (Fail j v) = (j = k)"
| "reportsOf k ev = False"

text \<open>A schedule that lets the chain run: for each link in turn, its callback fires and
  the unit it called reports the outcome \<open>out k\<close> (\<open>True\<close> with a value for success,
  \<open>False\<close> for failure).\<close>

fun reportEv :: "nat \<Rightarrow> bool \<times> jsval \<Rightarrow> 'f event" where
  "reportEv k (True, v) = Succeed k v"
| "reportEv k (False, v) = Fail k v"

definition sweep :: "(nat \<Rightarrow> bool \<times> jsval) \<Rightarrow> nat \<Rightarrow> 'f event list" where
  "sweep out n = concat (map (\<lambda>k. [Fire k, reportEv k (out k)]) [0 ..< n])"

text \<open>The chain can run: an implementation is configured, no link is rejected, and the
  first \<open>n\<close> links are fulfilled.\<close>

definition healthy :: "'f pique \<times> 'f globals \<Rightarrow> nat \<Rightarrow> bool" where
  "healthy w n \<longleftrightarrow>
     LocalPromise (snd w) \<noteq> None
     \<and> (\<forall>l \<in> set (globalPromise (fst w)). \<not> isFailed l)
     \<and> n \<le> length (globalPromise (fst w))
     \<and> (\<forall>i < n. isDone (globalPromise (fst w) ! i))"

section \<open>Basic facts about single operations\<close>

lemma exec_append: "exec (t @ u) w = exec u (exec t w)"
  by (induction t arbitrary: w) simp_all

lemma Pique_loaded: "Pique (loaded (Some P)) = Inr (fst (fresh P))"
  by (simp add: Pique_def loaded_def fresh_def)

lemma changeQueue_Some:
  "LocalPromise m = Some P \<Longrightarrow>
   changeQueue f g (self, m) =
     Inr (length (promises m),
          (g \<lparr>fn = f, localResolve = ResolveOf (length (promises m)),
               localReject = RejectOf (length (promises m))\<rparr> self)
            \<lparr>globalPromise :=
               globalPromise (g \<lparr>fn = f, localResolve = ResolveOf (length (promises m)),
                                 localReject = RejectOf (length (promises m))\<rparr> self)
               @ [Waiting]\<rparr>,
          m\<lparr>promises := promises m @ [\<lparr>maker = P, state = Pending\<rparr>]\<rparr>)"
  by (simp add: changeQueue_def Let_def)

lemma changeQueue_None:
  "LocalPromise m = None \<Longrightarrow> changeQueue f g (self, m) = Inl ConfigError"
  by (simp add: changeQueue_def)

lemma push_Some:
  "LocalPromise m = Some P \<Longrightarrow>
   push f (self, m) =
     Inr (length (promises m),
          \<lparr>globalPromise = globalPromise self @ [Waiting],
           promiseFunctionArray = promiseFunctionArray self @
             [\<lparr>fn = f, localResolve = ResolveOf (length (promises m)),
               localReject = RejectOf (length (promises m))\<rparr>]\<rparr>,
          m\<lparr>promises := promises m @ [\<lparr>maker = P, state = Pending\<rparr>]\<rparr>)"
  by (simp add: push_def changeQueue_Some)

lemma unshift_Some:
  "LocalPromise m = Some P \<Longrightarrow>
   unshift f (self, m) =
     Inr (length (promises m),
          \<lparr>globalPromise = globalPromise self @ [Waiting],
           promiseFunctionArray =
             \<lparr>fn = f, localResolve = ResolveOf (length (promises m)),
              localReject = RejectOf (length (promises m))\<rparr> # promiseFunctionArray self\<rparr>,
          m\<lparr>promises := promises m @ [\<lparr>maker = P, state = Pending\<rparr>]\<rparr>)"
  by (simp add: unshift_def changeQueue_Some)

lemma push_None: "LocalPromise m = None \<Longrightarrow> push f (self, m) = Inl ConfigError"
  by (simp add: push_def changeQueue_None)

lemma unshift_None: "LocalPromise m = None \<Longrightarrow> unshift f (self, m) = Inl ConfigError"
  by (simp add: unshift_def changeQueue_None)

lemma resolution_not_Pending [simp]: "resolution v \<noteq> Pending"
  by (cases v) simp_all

lemma following_not_Pending: "following s \<Longrightarrow> s \<noteq> Pending"
  by (cases s) simp_all

lemma following_resolution [simp]: "following (resolution v) = isThenable v"
  by (cases v) simp_all

lemma LocalPromise_put [simp]: "LocalPromise (put p s m) = LocalPromise m"
  by (simp add: put_def)

lemma LocalPromise_settle [simp]: "LocalPromise (settle p s m) = LocalPromise m"
  by (simp add: settle_def)

lemma LocalPromise_adopt [simp]: "LocalPromise (adopt p s m) = LocalPromise m"
  by (simp add: adopt_def)

lemma LocalPromise_applyFn [simp]: "LocalPromise (applyFn h v m) = LocalPromise m"
  by (cases h) simp_all

lemma LocalPromise_callback [simp]:
  "LocalPromise (snd (callback k (self, m))) = LocalPromise m"
  by (simp add: callback_def split: option.splits list.splits)

lemma LocalPromise_fire [simp]: "LocalPromise (snd (fire k (self, m))) = LocalPromise m"
  by (simp add: fire_def split: link.splits)

lemma LocalPromise_step:
  "\<not> isConfigure ev \<Longrightarrow> LocalPromise (snd (step ev (self, m))) = LocalPromise m"
proof (cases ev)
  case (Push f)
  then show ?thesis
    by (cases "LocalPromise m") (simp_all add: push_None push_Some)
next
  case (Unshift f)
  then show ?thesis
    by (cases "LocalPromise m") (simp_all add: unshift_None unshift_Some)
qed (simp_all add: finishPromise_def split: option.splits)

lemma LocalPromise_exec:
  "\<forall>ev \<in> set t. \<not> isConfigure ev \<Longrightarrow>
   LocalPromise (snd (exec t w)) = LocalPromise (snd w)"
proof (induction t arbitrary: w)
  case Nil
  then show ?case by simp
next
  case (Cons ev t)
  obtain self m where w: "w = (self, m)" by (cases w)
  from Cons.prems have "LocalPromise (snd (step ev w)) = LocalPromise (snd w)"
    by (simp add: w LocalPromise_step)
  with Cons show ?case by simp
qed

section \<open>The links of a chain settle in order\<close>

text \<open>
  \<open>ordered\<close> says what \<open>then\<close> gives: a link that is no longer waiting has only settled
  links before it, and a link whose callback ran has only fulfilled links before it.
  Every change an event makes to a link keeps this.
\<close>

lemma ordered_append_Waiting: "ordered c \<Longrightarrow> ordered (c @ [Waiting])"
  unfolding ordered_def
  by (auto simp: nth_append less_Suc_eq)

lemma ordered_after_Waiting:
  "ordered c \<Longrightarrow> k < length c \<Longrightarrow> c ! k = Waiting \<Longrightarrow> k < j \<Longrightarrow> j < length c \<Longrightarrow> c ! j = Waiting"
  unfolding ordered_def
  by (metis isDone.simps(2) isFailed.simps(2))

lemma ordered_before_fired:
  "ordered c \<Longrightarrow> k < length c \<Longrightarrow> entryOf (c ! k) = Some e \<Longrightarrow> i < k \<Longrightarrow> isDone (c ! i)"
  unfolding ordered_def by auto

lemma ordered_after_undone:
  "ordered c \<Longrightarrow> k < length c \<Longrightarrow> \<not> isDone (c ! k) \<Longrightarrow> k < j \<Longrightarrow> j < length c \<Longrightarrow>
   entryOf (c ! j) = None"
  unfolding ordered_def by (metis not_None_eq)

lemma isDone_entryOf: "isDone l \<Longrightarrow> entryOf l \<noteq> None"
  by (cases l) simp_all

lemma ordered_before_settled:
  "ordered c \<Longrightarrow> k < length c \<Longrightarrow> isDone l \<or> isFailed l \<Longrightarrow> c ! k = l \<Longrightarrow> i < k \<Longrightarrow> isDone (c ! i) \<or> isFailed (c ! i)"
  unfolding ordered_def by (cases l) auto

lemma ordered_update:
  assumes "ordered c" "k < length c"
    and a: "X \<noteq> Waiting \<Longrightarrow> \<forall>i < k. isDone (c ! i) \<or> isFailed (c ! i)"
    and b: "entryOf X \<noteq> None \<Longrightarrow> \<forall>i < k. isDone (c ! i)"
    and c: "\<And>j. k < j \<Longrightarrow> j < length c \<Longrightarrow> c ! j \<noteq> Waiting \<Longrightarrow> isDone X \<or> isFailed X"
    and d: "\<And>j. k < j \<Longrightarrow> j < length c \<Longrightarrow> entryOf (c ! j) \<noteq> None \<Longrightarrow> isDone X"
  shows "ordered (c[k := X])"
  unfolding ordered_def
proof (intro conjI allI impI)
  fix j i
  assume j: "j < length (c[k := X])" and nw: "c[k := X] ! j \<noteq> Waiting" and i: "i < j"
  show "isDone (c[k := X] ! i) \<or> isFailed (c[k := X] ! i)"
  proof (cases "j = k")
    case True
    with nw assms(2) have "X \<noteq> Waiting" by simp
    from a [OF this] i True show ?thesis by (simp add: nth_list_update)
  next
    case False
    with nw j have cj: "c ! j \<noteq> Waiting" by (simp add: nth_list_update)
    show ?thesis
    proof (cases "i = k")
      case True
      with c [of j] i j cj assms(2) show ?thesis by simp
    next
      case False
      with assms(1) j cj i show ?thesis by (simp add: ordered_def nth_list_update)
    qed
  qed
next
  fix j i
  assume j: "j < length (c[k := X])" and nw: "entryOf (c[k := X] ! j) \<noteq> None" and i: "i < j"
  show "isDone (c[k := X] ! i)"
  proof (cases "j = k")
    case True
    with nw assms(2) have "entryOf X \<noteq> None" by simp
    from b [OF this] i True show ?thesis by (simp add: nth_list_update)
  next
    case False
    with nw j have cj: "entryOf (c ! j) \<noteq> None" by (simp add: nth_list_update)
    show ?thesis
    proof (cases "i = k")
      case True
      with d [of j] i j cj assms(2) show ?thesis by simp
    next
      case False
      with assms(1) j cj i show ?thesis by (simp add: ordered_def nth_list_update)
    qed
  qed
qed

lemma ordered_all_before_Done:
  assumes "ordered c" "k < length c" "k = 0 \<or> isDone (c ! (k - 1))"
  shows "\<forall>i < k. isDone (c ! i)"
proof (intro allI impI)
  fix i assume i: "i < k"
  with assms(3) have d: "isDone (c ! (k - 1))" by auto
  then obtain e' where e': "entryOf (c ! (k - 1)) = Some e'"
    using isDone_entryOf by fastforce
  show "isDone (c ! i)"
  proof (cases "i = k - 1")
    case True with d show ?thesis by simp
  next
    case False
    with i have "i < k - 1" by simp
    then show ?thesis
      using ordered_before_fired [OF assms(1) _ e', of i] assms(2) by simp
  qed
qed

lemma ordered_all_before_settled:
  assumes "ordered c" "k < length c" "k = 0 \<or> isDone (c ! (k - 1)) \<or> isFailed (c ! (k - 1))"
  shows "\<forall>i < k. isDone (c ! i) \<or> isFailed (c ! i)"
proof (intro allI impI)
  fix i assume i: "i < k"
  with assms(3) have d: "isDone (c ! (k - 1)) \<or> isFailed (c ! (k - 1))" by auto
  show "isDone (c ! i) \<or> isFailed (c ! i)"
  proof (cases "i = k - 1")
    case True with d show ?thesis by simp
  next
    case False
    with i have "i < k - 1" by simp
    then show ?thesis
      using ordered_before_settled [OF assms(1) _ d refl, of i] assms(2) by simp
  qed
qed

lemma ordered_run:
  assumes "ordered c" "k < length c" "c ! k = Waiting" "k = 0 \<or> isDone (c ! (k - 1))"
  shows "ordered (c[k := Running e])"
proof (rule ordered_update [OF assms(1,2)])
  show "\<forall>i<k. isDone (c ! i)" using ordered_all_before_Done [OF assms(1,2,4)] .
  then show "\<forall>i<k. isDone (c ! i) \<or> isFailed (c ! i)" by blast
next
  fix j assume "k < j" "j < length c" "c ! j \<noteq> Waiting"
  with ordered_after_Waiting [OF assms(1-3)] show "isDone (Running e) \<or> isFailed (Running e)"
    by blast
next
  fix j assume "k < j" "j < length c" "entryOf (c ! j) \<noteq> None"
  with ordered_after_Waiting [OF assms(1-3), of j] show "isDone (Running e)"
    by simp
qed

lemma ordered_reject:
  assumes "ordered c" "k < length c" "c ! k = Waiting"
    "k = 0 \<or> isDone (c ! (k - 1)) \<or> isFailed (c ! (k - 1))"
  shows "ordered (c[k := Failed None])"
proof (rule ordered_update [OF assms(1,2)])
  show "\<forall>i<k. isDone (c ! i) \<or> isFailed (c ! i)"
    using ordered_all_before_settled [OF assms(1,2,4)] .
next
  assume "entryOf (Failed None) \<noteq> None"
  then show "\<forall>i<k. isDone (c ! i)" by simp
next
  fix j assume "k < j" "j < length c" "c ! j \<noteq> Waiting"
  then show "isDone (Failed None) \<or> isFailed (Failed None)" by simp
next
  fix j assume "k < j" "j < length c" "entryOf (c ! j) \<noteq> None"
  with ordered_after_Waiting [OF assms(1-3), of j] show "isDone (Failed None)"
    by simp
qed

lemma ordered_finish:
  assumes "ordered c" "k < length c" "c ! k = Running e"
  shows "ordered (c[k := Done e])"
proof (rule ordered_update [OF assms(1,2)])
  show "\<forall>i<k. isDone (c ! i)"
    using ordered_before_fired [OF assms(1,2)] assms(3) by simp
  then show "\<forall>i<k. isDone (c ! i) \<or> isFailed (c ! i)" by blast
qed simp_all

lemma ordered_throw:
  assumes "ordered c" "k < length c" "c ! k = Running e"
  shows "ordered (c[k := Failed (Some e)])"
proof (rule ordered_update [OF assms(1,2)])
  show "\<forall>i<k. isDone (c ! i)"
    using ordered_before_fired [OF assms(1,2)] assms(3) by simp
  then show "\<forall>i<k. isDone (c ! i) \<or> isFailed (c ! i)" by blast
next
  fix j assume "k < j" "j < length c" "entryOf (c ! j) \<noteq> None"
  with ordered_after_undone [OF assms(1,2), of j] assms(3) show "isDone (Failed (Some e))"
    by simp
qed simp_all

subsection \<open>The entries a chain has called\<close>

lemma popped_append: "popped (a @ b) = popped a @ popped b"
  by (induction a) (simp_all split: option.splits)

lemma unfired_append: "unfired (a @ b) = unfired a + unfired b"
  by (simp add: unfired_def)

lemma popped_none: "\<forall>l \<in> set c. entryOf l = None \<Longrightarrow> popped c = []"
  by (induction c) simp_all

lemma popped_update:
  "k < length c \<Longrightarrow>
   popped (c[k := X]) =
     popped (take k c) @ (case entryOf X of None \<Rightarrow> [] | Some e \<Rightarrow> [e]) @ popped (drop (Suc k) c)"
  by (simp add: upd_conv_take_nth_drop popped_append split: option.splits)

lemma popped_split:
  "k < length c \<Longrightarrow>
   popped c =
     popped (take k c) @ (case entryOf (c ! k) of None \<Rightarrow> [] | Some e \<Rightarrow> [e]) @ popped (drop (Suc k) c)"
  using popped_update [of k c "c ! k"] by simp

lemma unfired_update:
  "k < length c \<Longrightarrow>
   unfired (c[k := X]) =
     unfired (take k c) + (if entryOf X = None then 1 else 0) + unfired (drop (Suc k) c)"
  by (simp add: upd_conv_take_nth_drop unfired_def)

lemma unfired_split:
  "k < length c \<Longrightarrow>
   unfired c =
     unfired (take k c) + (if entryOf (c ! k) = None then 1 else 0) + unfired (drop (Suc k) c)"
  using unfired_update [of k c "c ! k"] by simp

lemma popped_same:
  "k < length c \<Longrightarrow> entryOf X = entryOf (c ! k) \<Longrightarrow> popped (c[k := X]) = popped c"
  using popped_update [of k c X] popped_split [of k c] by simp

lemma unfired_same:
  "k < length c \<Longrightarrow> entryOf X = entryOf (c ! k) \<Longrightarrow> unfired (c[k := X]) = unfired c"
  using unfired_update [of k c X] unfired_split [of k c] by simp

lemma popped_after_undone:
  assumes "ordered c" "k < length c" "\<not> isDone (c ! k)"
  shows "popped (drop (Suc k) c) = []"
proof (rule popped_none, rule ballI)
  fix l assume "l \<in> set (drop (Suc k) c)"
  then obtain i where "i < length c - Suc k" "l = c ! (Suc k + i)"
    by (auto simp: in_set_conv_nth)
  then show "entryOf l = None"
    using ordered_after_undone [OF assms, of "Suc k + i"] by simp
qed

lemma popped_run:
  assumes "ordered c" "k < length c" "c ! k = Waiting"
  shows "popped (c[k := Running e]) = popped c @ [e]"
  using popped_update [OF assms(2), of "Running e"] popped_split [OF assms(2)]
    popped_after_undone [OF assms(1,2)] assms(3)
  by simp

lemma unfired_run:
  assumes "k < length c" "c ! k = Waiting"
  shows "Suc (unfired (c[k := Running e])) = unfired c"
  using unfired_update [OF assms(1), of "Running e"] unfired_split [OF assms(1)] assms(2)
  by simp

text \<open>What \<open>fire\<close> can do.\<close>

lemma fire_cases:
  obtains
    (idle) "fire k (self, m) = (self, m)"
  | (reject) "k < length (globalPromise self)" "globalPromise self ! k = Waiting"
      "k = 0 \<or> isDone (globalPromise self ! (k - 1)) \<or> isFailed (globalPromise self ! (k - 1))"
      "fire k (self, m) = (self\<lparr>globalPromise := (globalPromise self)[k := Failed None]\<rparr>, m)"
  | (run) e rest where "k < length (globalPromise self)" "globalPromise self ! k = Waiting"
      "k = 0 \<or> isDone (globalPromise self ! (k - 1))"
      "promiseFunctionArray self = e # rest" "LocalPromise m \<noteq> None"
      "fire k (self, m) =
         (self\<lparr>promiseFunctionArray := rest,
               globalPromise := (globalPromise self)[k := Running e]\<rparr>,
          m\<lparr>invoked := invoked m @ [e]\<rparr>)"
proof (cases "k < length (globalPromise self) \<and> globalPromise self ! k = Waiting")
  case False
  then have "fire k (self, m) = (self, m)" by (auto simp: fire_def)
  then show ?thesis by (rule idle)
next
  case True
  show ?thesis
  proof (cases "k = 0 \<or> isDone (globalPromise self ! (k - 1))")
    case pre: True
    then have f: "fire k (self, m) = callback k (self, m)"
      using True by (cases "globalPromise self ! (k - 1)") (auto simp: fire_def)
    show ?thesis
    proof (cases "LocalPromise m")
      case None
      with f have "fire k (self, m) =
          (self\<lparr>globalPromise := (globalPromise self)[k := Failed None]\<rparr>, m)"
        by (simp add: callback_def)
      with True pre show ?thesis by (intro reject) auto
    next
      case (Some P)
      show ?thesis
      proof (cases "promiseFunctionArray self")
        case Nil
        with f Some have "fire k (self, m) =
            (self\<lparr>globalPromise := (globalPromise self)[k := Failed None]\<rparr>, m)"
          by (simp add: callback_def)
        with True pre show ?thesis by (intro reject) auto
      next
        case (Cons e rest)
        with f Some have "fire k (self, m) =
           (self\<lparr>promiseFunctionArray := rest,
                 globalPromise := (globalPromise self)[k := Running e]\<rparr>,
            m\<lparr>invoked := invoked m @ [e]\<rparr>)"
          by (simp add: callback_def)
        with True pre Cons Some show ?thesis by (intro run [of e rest]) auto
      qed
    qed
  next
    case pre: False
    then have k: "k \<noteq> 0" by simp
    show ?thesis
    proof (cases "globalPromise self ! (k - 1)")
      case (Failed x)
      with True k have "fire k (self, m) =
          (self\<lparr>globalPromise := (globalPromise self)[k := Failed None]\<rparr>, m)"
        by (simp add: fire_def)
      with True Failed show ?thesis by (intro reject) auto
    next
      case Waiting
      with True k have "fire k (self, m) = (self, m)" by (simp add: fire_def)
      then show ?thesis by (rule idle)
    next
      case (Running e)
      with True k have "fire k (self, m) = (self, m)" by (simp add: fire_def)
      then show ?thesis by (rule idle)
    next
      case (Done e)
      with pre show ?thesis by simp
    qed
  qed
qed

section \<open>The invariants hold in every reachable state\<close>

subsection \<open>Chain, array and log of calls\<close>

lemma invoked_put [simp]: "invoked (put p s m) = invoked m"
  by (simp add: put_def)

lemma invoked_settle [simp]: "invoked (settle p s m) = invoked m"
  by (simp add: settle_def)

lemma invoked_adopt [simp]: "invoked (adopt p s m) = invoked m"
  by (simp add: adopt_def)

lemma invoked_applyFn [simp]: "invoked (applyFn h v m) = invoked m"
  by (cases h) simp_all

lemma chainOK_fire: "chainOK (self, m) \<Longrightarrow> chainOK (fire k (self, m))"
proof (cases rule: fire_cases [of k self m])
  case idle
  assume "chainOK (self, m)"
  with idle show ?thesis by simp
next
  case reject
  assume "chainOK (self, m)"
  with reject show ?thesis
    by (simp add: chainOK_def ordered_reject popped_same unfired_same)
next
  case (run e rest)
  assume ok: "chainOK (self, m)"
  from ok run have "unfired ((globalPromise self)[k := Running e]) = length rest"
    using unfired_run [of k "globalPromise self" e] by (simp add: chainOK_def)
  with ok run show ?thesis
    by (simp add: chainOK_def ordered_run popped_run)
qed

lemma chainOK_globalResolve:
  "chainOK (self, m) \<Longrightarrow> invoked m' = invoked m \<Longrightarrow> chainOK (globalResolve k self, m')"
  by (auto simp: chainOK_def globalResolve_def ordered_finish popped_same unfired_same
           split: link.splits)

lemma chainOK_throw: "chainOK (self, m) \<Longrightarrow> chainOK (throw k self, m)"
  by (auto simp: chainOK_def throw_def ordered_throw popped_same unfired_same
           split: link.splits)

lemma chainOK_snd: "chainOK (self, m) \<Longrightarrow> invoked m' = invoked m \<Longrightarrow> chainOK (self, m')"
  by (simp add: chainOK_def)

lemma chainOK_step: "chainOK w \<Longrightarrow> chainOK (step ev w)"
proof (cases w)
  case (Pair self m)
  assume ok: "chainOK w"
  show ?thesis
  proof (cases ev)
    case (Configure c)
    with ok Pair show ?thesis by (simp add: chainOK_def configure_def)
  next
    case (Push f)
    with ok Pair show ?thesis
      by (cases "LocalPromise m")
         (simp_all add: push_None push_Some chainOK_def ordered_append_Waiting
            popped_append unfired_append unfired_def)
  next
    case (Unshift f)
    with ok Pair show ?thesis
      by (cases "LocalPromise m")
         (simp_all add: unshift_None unshift_Some chainOK_def ordered_append_Waiting
            popped_append unfired_append unfired_def)
  next
    case (Fire k)
    with ok Pair show ?thesis by (simp add: chainOK_fire)
  next
    case (Succeed k v)
    with ok Pair show ?thesis
      by (simp add: finishPromise_def chainOK_globalResolve split: option.splits)
  next
    case (Fail k v)
    with ok Pair show ?thesis
      by (simp add: finishPromise_def chainOK_globalResolve split: option.splits)
  next
    case (Throw k)
    with ok Pair show ?thesis by (simp add: chainOK_throw)
  next
    case (OwnResolve k v)
    with ok Pair show ?thesis by (simp add: chainOK_snd split: option.splits)
  next
    case (OwnReject k v)
    with ok Pair show ?thesis by (simp add: chainOK_snd split: option.splits)
  next
    case (ThenResolve p v)
    with ok Pair show ?thesis by (simp add: chainOK_snd)
  next
    case (ThenReject p v)
    with ok Pair show ?thesis by (simp add: chainOK_snd)
  qed
qed

lemma chainOK_fresh: "chainOK (fresh P)"
  by (simp add: chainOK_def fresh_def loaded_def ordered_def unfired_def)

subsection \<open>Entries and their promises\<close>

lemma pid_entryFor [simp]: "pid (entryFor f p) = p"
  by (simp add: pid_def entryFor_def)

lemma wfEntry_entryFor [simp]: "wfEntry (entryFor f p)"
  by (simp add: wfEntry_def entryFor_def pid_def)

lemma push_Some':
  "LocalPromise m = Some P \<Longrightarrow>
   push f (self, m) =
     Inr (length (promises m),
          \<lparr>globalPromise = globalPromise self @ [Waiting],
           promiseFunctionArray = promiseFunctionArray self @ [entryFor f (length (promises m))]\<rparr>,
          m\<lparr>promises := promises m @ [\<lparr>maker = P, state = Pending\<rparr>]\<rparr>)"
  by (simp add: push_Some entryFor_def)

lemma unshift_Some':
  "LocalPromise m = Some P \<Longrightarrow>
   unshift f (self, m) =
     Inr (length (promises m),
          \<lparr>globalPromise = globalPromise self @ [Waiting],
           promiseFunctionArray = entryFor f (length (promises m)) # promiseFunctionArray self\<rparr>,
          m\<lparr>promises := promises m @ [\<lparr>maker = P, state = Pending\<rparr>]\<rparr>)"
  by (simp add: unshift_Some entryFor_def)

lemma length_promises_put [simp]: "length (promises (put p s m)) = length (promises m)"
  by (simp add: put_def)

lemma length_promises_settle [simp]: "length (promises (settle p s m)) = length (promises m)"
  by (simp add: settle_def)

lemma length_promises_adopt [simp]: "length (promises (adopt p s m)) = length (promises m)"
  by (simp add: adopt_def)

lemma length_promises_applyFn [simp]: "length (promises (applyFn h v m)) = length (promises m)"
  by (cases h) simp_all

lemma array_globalResolve [simp]:
  "promiseFunctionArray (globalResolve k self) = promiseFunctionArray self"
  by (simp add: globalResolve_def split: link.splits)

lemma array_throw [simp]: "promiseFunctionArray (throw k self) = promiseFunctionArray self"
  by (simp add: throw_def split: link.splits)

lemma length_chain_globalResolve [simp]:
  "length (globalPromise (globalResolve k self)) = length (globalPromise self)"
  by (simp add: globalResolve_def split: link.splits)

lemma length_chain_throw [simp]:
  "length (globalPromise (throw k self)) = length (globalPromise self)"
  by (simp add: throw_def split: link.splits)

text \<open>How one event changes the timeline and the store's size.\<close>

lemma timeline_fire: "timeline (fire k (self, m)) = timeline (self, m)"
  by (cases rule: fire_cases [of k self m]) (simp_all add: timeline_def)

lemma promises_fire: "promises (snd (fire k (self, m))) = promises m"
  by (cases rule: fire_cases [of k self m]) simp_all

lemma settlements_fire: "settlements (snd (fire k (self, m))) = settlements m"
  by (cases rule: fire_cases [of k self m]) simp_all

lemma timeline_step:
  "timeline (step ev w) =
     (case ev of
        Push f \<Rightarrow> (if LocalPromise (snd w) = None then timeline w
                   else timeline w @ [entryFor f (length (promises (snd w)))])
      | Unshift f \<Rightarrow> (if LocalPromise (snd w) = None then timeline w
                   else invoked (snd w) @ entryFor f (length (promises (snd w)))
                          # promiseFunctionArray (fst w))
      | _ \<Rightarrow> timeline w)"
proof (cases w)
  case (Pair self m)
  show ?thesis
  proof (cases ev)
    case (Push f)
    with Pair show ?thesis
      by (cases "LocalPromise m") (auto simp: push_None push_Some' timeline_def)
  next
    case (Unshift f)
    with Pair show ?thesis
      by (cases "LocalPromise m") (auto simp: unshift_None unshift_Some' timeline_def)
  next
    case (Fire k)
    with Pair show ?thesis by (simp add: timeline_fire)
  qed (simp_all add: Pair timeline_def configure_def finishPromise_def split: option.splits)
qed

lemma length_promises_step:
  "length (promises (snd (step ev w))) =
     (case ev of
        Push f \<Rightarrow> (if LocalPromise (snd w) = None then length (promises (snd w))
                   else Suc (length (promises (snd w))))
      | Unshift f \<Rightarrow> (if LocalPromise (snd w) = None then length (promises (snd w))
                   else Suc (length (promises (snd w))))
      | _ \<Rightarrow> length (promises (snd w)))"
proof (cases w)
  case (Pair self m)
  show ?thesis
  proof (cases ev)
    case (Push f)
    with Pair show ?thesis
      by (cases "LocalPromise m") (auto simp: push_None push_Some')
  next
    case (Unshift f)
    with Pair show ?thesis
      by (cases "LocalPromise m") (auto simp: unshift_None unshift_Some')
  next
    case (Fire k)
    with Pair show ?thesis by (simp add: promises_fire)
  qed (simp_all add: Pair configure_def finishPromise_def split: option.splits)
qed

lemma idsOK_step: "idsOK w \<Longrightarrow> idsOK (step ev w)"
proof -
  assume ok: "idsOK w"
  have tl: "timeline w = invoked (snd w) @ promiseFunctionArray (fst w)"
    by (simp add: timeline_def)
  from ok have fresh: "length (promises (snd w)) \<notin> set (map pid (timeline w))"
    by (simp add: idsOK_def)
  show ?thesis
  proof (cases ev)
    case (Push f)
    with ok fresh show ?thesis
      unfolding idsOK_def timeline_step length_promises_step
      by (auto simp: lessThan_Suc)
  next
    case (Unshift f)
    with ok fresh show ?thesis
      unfolding idsOK_def timeline_step length_promises_step
      by (auto simp: lessThan_Suc tl)
  next
    case (Configure c)
    with ok show ?thesis
      unfolding idsOK_def timeline_step length_promises_step by simp
  next
    case (Fire k)
    with ok show ?thesis
      unfolding idsOK_def timeline_step length_promises_step by simp
  next
    case (Succeed k v)
    with ok show ?thesis
      unfolding idsOK_def timeline_step length_promises_step by simp
  next
    case (Fail k v)
    with ok show ?thesis
      unfolding idsOK_def timeline_step length_promises_step by simp
  next
    case (Throw k)
    with ok show ?thesis
      unfolding idsOK_def timeline_step length_promises_step by simp
  next
    case (OwnResolve k v)
    with ok show ?thesis
      unfolding idsOK_def timeline_step length_promises_step by simp
  next
    case (OwnReject k v)
    with ok show ?thesis
      unfolding idsOK_def timeline_step length_promises_step by simp
  next
    case (ThenResolve p v)
    with ok show ?thesis
      unfolding idsOK_def timeline_step length_promises_step by simp
  next
    case (ThenReject p v)
    with ok show ?thesis
      unfolding idsOK_def timeline_step length_promises_step by simp
  qed
qed

lemma idsOK_fresh: "idsOK (fresh P)"
  by (simp add: idsOK_def fresh_def loaded_def timeline_def)

subsection \<open>States of the promises\<close>

lemma state_put:
  "p < length (promises m) \<Longrightarrow>
   state (promises (put p s m) ! q) = (if q = p then s else state (promises m ! q))"
  by (simp add: put_def nth_list_update)

lemma state_settle:
  "state (promises (settle p s m) ! q) =
     (if q = p \<and> p < length (promises m) \<and> state (promises m ! p) = Pending then s
      else state (promises m ! q))"
  by (simp add: settle_def state_put)

lemma state_adopt:
  "state (promises (adopt p s m) ! q) =
     (if q = p \<and> p < length (promises m) \<and> following (state (promises m ! p)) then s
      else state (promises m ! q))"
  by (simp add: adopt_def state_put)

lemma settlements_settle:
  "settlements (settle p s m) =
     (if p < length (promises m) \<and> state (promises m ! p) = Pending \<and> \<not> following s
      then settlements m @ [p] else settlements m)"
  by (simp add: settle_def put_def)

lemma settlements_adopt:
  "settlements (adopt p s m) =
     (if p < length (promises m) \<and> following (state (promises m ! p)) \<and> \<not> following s
      then settlements m @ [p] else settlements m)"
  by (simp add: adopt_def put_def)

lemma maker_put [simp]: "maker (promises (put p s m) ! q) = maker (promises m ! q)"
  by (cases "p < length (promises m)") (simp_all add: put_def nth_list_update list_update_beyond)

lemma maker_settle [simp]: "maker (promises (settle p s m) ! q) = maker (promises m ! q)"
  by (simp add: settle_def)

lemma maker_adopt [simp]: "maker (promises (adopt p s m) ! q) = maker (promises m ! q)"
  by (simp add: adopt_def)

text \<open>Every entry of the chain is in the log of calls.\<close>

lemma popped_mem: "k < length c \<Longrightarrow> entryOf (c ! k) = Some e \<Longrightarrow> e \<in> set (popped c)"
  using popped_split [of k c] by simp

lemma chainOK_entry_invoked:
  "chainOK w \<Longrightarrow> linkEntry k (fst w) = Some e \<Longrightarrow> e \<in> set (invoked (snd w))"
  by (auto simp: chainOK_def linkEntry_def dest: popped_mem split: if_splits)

lemma idsOK_pid_bound:
  "idsOK w \<Longrightarrow> e \<in> set (timeline w) \<Longrightarrow> pid e < length (promises (snd w))"
  by (auto simp: idsOK_def)

text \<open>An entry whose link is not yet fulfilled is the last one called.\<close>

lemma popped_last:
  assumes "ordered c" "k < length c" "entryOf (c ! k) = Some e" "\<not> isDone (c ! k)"
  shows "popped c = popped (take k c) @ [e]"
  using popped_split [OF assms(2)] popped_after_undone [OF assms(1,2,4)] assms(3) by simp

text \<open>The promise of an entry that a link has called is in the store, and is not the
  promise of an entry in the array.\<close>

lemma called_entry:
  assumes ch: "chainOK (self, m)" and ids: "idsOK (self, m)" and le: "linkEntry k self = Some e"
  shows "pid e < length (promises m)"
    and "\<forall>e' \<in> set (promiseFunctionArray self). pid e' \<noteq> pid e"
proof -
  from ch le have inv: "e \<in> set (invoked m)"
    using chainOK_entry_invoked [of "(self, m)" k e] by simp
  then show "pid e < length (promises m)"
    using idsOK_pid_bound [OF ids, of e] by (simp add: timeline_def)
  from ids have dist: "distinct (map pid (invoked m @ promiseFunctionArray self))"
    by (simp add: idsOK_def timeline_def)
  have "pid e \<notin> pid ` set (promiseFunctionArray self)"
    using dist inv by auto
  then show "\<forall>e' \<in> set (promiseFunctionArray self). pid e' \<noteq> pid e"
    by (metis imageI)
qed

lemma statesOK_settle:
  assumes "statesOK (self, m)" and "\<forall>e' \<in> set (promiseFunctionArray self). pid e' \<noteq> p"
    and "s \<noteq> Pending"
  shows "statesOK (self, settle p s m)"
  using assms by (auto simp: statesOK_def state_settle)

lemma statesOK_adopt:
  assumes "statesOK (self, m)" and "s \<noteq> Pending"
  shows "statesOK (self, adopt p s m)"
  using assms by (auto simp: statesOK_def state_adopt dest: following_not_Pending)

lemma statesOK_globalResolve:
  assumes "statesOK (self, m)"
    and "\<And>e. linkEntry k self = Some e \<Longrightarrow> state (promises m ! pid e) \<noteq> Pending"
  shows "statesOK (globalResolve k self, m)"
proof (cases "k < length (globalPromise self)")
  case False
  with assms(1) show ?thesis by (simp add: globalResolve_def)
next
  case True
  show ?thesis
  proof (cases "globalPromise self ! k")
    case (Running e)
    with True have "linkEntry k self = Some e" by (simp add: linkEntry_def)
    from assms(2) [OF this] assms(1) True Running show ?thesis
      by (auto simp: statesOK_def globalResolve_def nth_list_update)
  qed (use assms(1) True in \<open>simp_all add: globalResolve_def\<close>)
qed

lemma statesOK_finish:
  assumes ch: "chainOK (self, m)" and ids: "idsOK (self, m)" and st: "statesOK (self, m)"
    and le: "linkEntry k self = Some e" and s: "s \<noteq> Pending"
  shows "statesOK (globalResolve k self, settle (pid e) s m)"
proof (rule statesOK_globalResolve)
  show "statesOK (self, settle (pid e) s m)"
    using statesOK_settle [OF st called_entry(2) [OF ch ids le] s] .
next
  fix e' assume "linkEntry k self = Some e'"
  with le have "e' = e" by simp
  with called_entry(1) [OF ch ids le] s
  show "state (promises (settle (pid e) s m) ! pid e') \<noteq> Pending"
    by (simp add: state_settle)
qed

lemma chain_entry_in_timeline:
  "chainOK w \<Longrightarrow> k < length (globalPromise (fst w)) \<Longrightarrow>
   entryOf (globalPromise (fst w) ! k) = Some e \<Longrightarrow> e \<in> set (timeline w)"
  using chainOK_entry_invoked [of w k e] by (simp add: linkEntry_def timeline_def)

lemma statesOK_submit:
  assumes ch: "chainOK (self, m)" and ids: "idsOK (self, m)" and st: "statesOK (self, m)"
    and arr: "set arr' = insert (entryFor f (length (promises m))) (set (promiseFunctionArray self))"
  shows "statesOK (\<lparr>globalPromise = globalPromise self @ [Waiting], promiseFunctionArray = arr'\<rparr>,
                   m\<lparr>promises := promises m @ [\<lparr>maker = P, state = Pending\<rparr>]\<rparr>)"
proof -
  let ?ps = "promises m @ [\<lparr>maker = P, state = Pending\<rparr>]"
  have old: "\<And>e. e \<in> set (timeline (self, m)) \<Longrightarrow> ?ps ! pid e = promises m ! pid e"
    using idsOK_pid_bound [OF ids] by (simp add: nth_append)
  have c1: "\<forall>e \<in> set arr'. state (?ps ! pid e) = Pending"
  proof
    fix e assume "e \<in> set arr'"
    with arr have "e = entryFor f (length (promises m)) \<or> e \<in> set (promiseFunctionArray self)"
      by simp
    then show "state (?ps ! pid e) = Pending"
    proof
      assume "e = entryFor f (length (promises m))"
      then show ?thesis by simp
    next
      assume e: "e \<in> set (promiseFunctionArray self)"
      then have "e \<in> set (timeline (self, m))" by (simp add: timeline_def)
      from old [OF this] st e show ?thesis by (simp add: statesOK_def)
    qed
  qed
  have c23: "\<And>k e. k < length (globalPromise self) \<Longrightarrow>
      entryOf (globalPromise self ! k) = Some e \<Longrightarrow> ?ps ! pid e = promises m ! pid e"
    using chain_entry_in_timeline [OF ch] old by simp
  have c3: "\<forall>k < length (globalPromise self @ [Waiting]). \<forall>e.
      (globalPromise self @ [Waiting]) ! k = Done e \<longrightarrow> state (?ps ! pid e) \<noteq> Pending"
  proof (intro allI impI)
    fix k e assume k: "k < length (globalPromise self @ [Waiting])"
      and r: "(globalPromise self @ [Waiting]) ! k = Done e"
    then have k': "k < length (globalPromise self)" and r': "globalPromise self ! k = Done e"
      by (auto simp: nth_append split: if_splits)
    with c23 [of k e] st show "state (?ps ! pid e) \<noteq> Pending" by (simp add: statesOK_def)
  qed
  from c1 c3 show ?thesis by (simp add: statesOK_def)
qed

lemma statesOK_fire:
  assumes st: "statesOK (self, m)"
  shows "statesOK (fire k (self, m))"
proof (cases rule: fire_cases [of k self m])
  case idle
  with st show ?thesis by simp
next
  case reject
  with st show ?thesis by (auto simp: statesOK_def nth_list_update)
next
  case (run e rest)
  with st show ?thesis by (auto simp: statesOK_def nth_list_update)
qed

lemma statesOK_throw: "statesOK (self, m) \<Longrightarrow> statesOK (throw k self, m)"
  by (auto simp: statesOK_def throw_def nth_list_update split: link.splits)

lemma wf_link_entry:
  "chainOK w \<Longrightarrow> idsOK w \<Longrightarrow> linkEntry k (fst w) = Some e \<Longrightarrow> wfEntry e"
  using chainOK_entry_invoked [of w k e] by (simp add: idsOK_def timeline_def)

lemma step_report:
  assumes "chainOK (self, m)" "idsOK (self, m)" "linkEntry k self = Some e"
  shows "step (Succeed k v) (self, m) = (globalResolve k self, settle (pid e) (resolution v) m)"
    and "step (Fail k v) (self, m) = (globalResolve k self, settle (pid e) (Rejected v) m)"
    and "step (OwnResolve k v) (self, m) = (self, settle (pid e) (resolution v) m)"
    and "step (OwnReject k v) (self, m) = (self, settle (pid e) (Rejected v) m)"
  using wf_link_entry [of "(self, m)" k e] assms
  by (simp_all add: finishPromise_def wfEntry_def)

lemma statesOK_step:
  assumes ch: "chainOK w" and ids: "idsOK w" and st: "statesOK w"
  shows "statesOK (step ev w)"
proof (cases w)
  case (Pair self m)
  note w = Pair
  note ch' = ch [unfolded w] and ids' = ids [unfolded w] and st' = st [unfolded w]
  show ?thesis
  proof (cases ev)
    case (Configure c)
    with st w show ?thesis by (simp add: statesOK_def configure_def)
  next
    case (Push f)
    show ?thesis
    proof (cases "LocalPromise m")
      case None
      with Push st w show ?thesis by (simp add: push_None)
    next
      case (Some P)
      with Push w statesOK_submit [OF ch' ids' st',
          of "promiseFunctionArray self @ [entryFor f (length (promises m))]" f P]
      show ?thesis by (simp add: push_Some')
    qed
  next
    case (Unshift f)
    show ?thesis
    proof (cases "LocalPromise m")
      case None
      with Unshift st w show ?thesis by (simp add: unshift_None)
    next
      case (Some P)
      with Unshift w statesOK_submit [OF ch' ids' st',
          of "entryFor f (length (promises m)) # promiseFunctionArray self" f P]
      show ?thesis by (simp add: unshift_Some')
    qed
  next
    case (Fire k)
    with st w show ?thesis by (simp add: statesOK_fire)
  next
    case (Succeed k v)
    show ?thesis
    proof (cases "linkEntry k self")
      case None
      with Succeed st w show ?thesis by simp
    next
      case (Some e)
      with Succeed w step_report(1) [OF ch' ids' Some, of v]
        statesOK_finish [OF ch' ids' st' Some, of "resolution v"]
      show ?thesis by simp
    qed
  next
    case (Fail k v)
    show ?thesis
    proof (cases "linkEntry k self")
      case None
      with Fail st w show ?thesis by simp
    next
      case (Some e)
      with Fail w step_report(2) [OF ch' ids' Some, of v]
        statesOK_finish [OF ch' ids' st' Some, of "Rejected v"]
      show ?thesis by simp
    qed
  next
    case (Throw k)
    with st w show ?thesis by (simp add: statesOK_throw)
  next
    case (OwnResolve k v)
    show ?thesis
    proof (cases "linkEntry k self")
      case None
      with OwnResolve st w show ?thesis by simp
    next
      case (Some e)
      with OwnResolve w step_report(3) [OF ch' ids' Some, of v]
        statesOK_settle [OF st' called_entry(2) [OF ch' ids' Some], of "resolution v"]
      show ?thesis by simp
    qed
  next
    case (OwnReject k v)
    show ?thesis
    proof (cases "linkEntry k self")
      case None
      with OwnReject st w show ?thesis by simp
    next
      case (Some e)
      with OwnReject w step_report(4) [OF ch' ids' Some, of v]
        statesOK_settle [OF st' called_entry(2) [OF ch' ids' Some], of "Rejected v"]
      show ?thesis by simp
    qed
  next
    case (ThenResolve p v)
    with st w show ?thesis by (simp add: statesOK_adopt)
  next
    case (ThenReject p v)
    with st w show ?thesis by (simp add: statesOK_adopt)
  qed
qed

lemma invariant_step: "invariant w \<Longrightarrow> invariant (step ev w)"
  by (simp add: invariant_def chainOK_step idsOK_step statesOK_step)

lemma invariant_exec: "invariant w \<Longrightarrow> invariant (exec t w)"
  by (induction t arbitrary: w) (simp_all add: invariant_step)

lemma invariant_fresh: "invariant (fresh P)"
  by (simp add: invariant_def chainOK_fresh idsOK_fresh)
     (simp add: statesOK_def fresh_def loaded_def)

lemma invariant_reachable: "invariant (exec t (fresh P))"
  by (rule invariant_exec [OF invariant_fresh])

subsection \<open>Runs without thenables\<close>

text \<open>
  When no unit passes a thenable to a resolve function, no promise ever follows one:
  promises are settled by the reports themselves, in the order in which the units were
  called.
\<close>

lemma tidy_fst: "tidy (self, m) \<Longrightarrow> tidy (self', m)"
  by (simp add: tidy_def)

lemma adopt_tidy: "tidy (self, m) \<Longrightarrow> adopt p s m = m"
  by (auto simp: tidy_def adopt_def)

lemma tidy_settle:
  assumes ch: "chainOK (self, m)" and ids: "idsOK (self, m)" and st: "statesOK (self, m)"
    and td: "tidy (self, m)" and le: "linkEntry k self = Some e"
    and s: "s \<noteq> Pending" "\<not> following s"
  shows "tidy (self', settle (pid e) s m)"
proof (cases "state (promises m ! pid e) = Pending")
  case False
  then have "settle (pid e) s m = m" by (simp add: settle_def)
  with td show ?thesis by (simp add: tidy_def)
next
  case True
  let ?c = "globalPromise self" and ?p = "pid e"
  from le have k: "k < length ?c" and ek: "entryOf (?c ! k) = Some e"
    by (auto simp: linkEntry_def split: if_splits)
  note pb = called_entry(1) [OF ch ids le]
  from ch have ord: "ordered ?c" and pop: "popped ?c = invoked m"
    by (simp_all add: chainOK_def)
  from ids have dist: "distinct (map pid (invoked m @ promiseFunctionArray self))"
    by (simp add: idsOK_def timeline_def)
  from True st k have nd: "?c ! k \<noteq> Done e" by (auto simp: statesOK_def)
  with ek have undone: "\<not> isDone (?c ! k)" by (cases "?c ! k") simp_all
  have last: "invoked m = popped (take k ?c) @ [e]"
    using popped_last [OF ord k ek undone] pop by simp
  have "?p \<notin> pid ` set (popped (take k ?c))"
    using dist last by auto
  then have others: "\<And>e'. e' \<in> set (popped (take k ?c)) \<Longrightarrow> pid e' \<noteq> ?p"
    by (metis imageI)
  have "filter (\<lambda>e'. state (promises (settle ?p s m) ! pid e') \<noteq> Pending)
          (popped (take k ?c)) =
        filter (\<lambda>e'. state (promises m ! pid e') \<noteq> Pending) (popped (take k ?c))"
    by (rule filter_cong) (simp_all add: state_settle others)
  with last pb True s
  have "filter (\<lambda>e'. state (promises (settle ?p s m) ! pid e') \<noteq> Pending) (invoked m) =
        filter (\<lambda>e'. state (promises m ! pid e') \<noteq> Pending) (invoked m) @ [e]"
    by (simp add: state_settle)
  with td pb True s have c2: "settlements (settle ?p s m) =
      map pid (filter (\<lambda>e'. state (promises (settle ?p s m) ! pid e') \<noteq> Pending)
                 (invoked (settle ?p s m)))"
    by (simp add: tidy_def settlements_settle)
  from td s have c1: "\<forall>q < length (promises (settle ?p s m)).
      \<not> following (state (promises (settle ?p s m) ! q))"
    by (simp add: tidy_def state_settle)
  from c1 c2 show ?thesis by (simp add: tidy_def)
qed

lemma tidy_submit:
  assumes ids: "idsOK (self, m)" and td: "tidy (self, m)"
  shows "tidy (self', m\<lparr>promises := promises m @ [\<lparr>maker = P, state = Pending\<rparr>]\<rparr>)"
proof -
  let ?ps = "promises m @ [\<lparr>maker = P, state = Pending\<rparr>]"
  have old: "\<And>e. e \<in> set (invoked m) \<Longrightarrow> ?ps ! pid e = promises m ! pid e"
    using idsOK_pid_bound [OF ids] by (simp add: nth_append timeline_def)
  have "filter (\<lambda>e. state (?ps ! pid e) \<noteq> Pending) (invoked m) =
        filter (\<lambda>e. state (promises m ! pid e) \<noteq> Pending) (invoked m)"
    by (rule filter_cong) (simp_all add: old)
  with td show ?thesis by (simp add: tidy_def nth_append)
qed

lemma tidy_fire:
  assumes st: "statesOK (self, m)" and td: "tidy (self, m)"
  shows "tidy (fire k (self, m))"
proof (cases rule: fire_cases [of k self m])
  case idle
  with td show ?thesis by simp
next
  case reject
  with td show ?thesis by (simp add: tidy_def)
next
  case (run e rest)
  with st have "state (promises m ! pid e) = Pending" by (simp add: statesOK_def)
  with run td show ?thesis by (simp add: tidy_def)
qed

lemma tidy_step:
  assumes inv: "invariant w" and td: "tidy w" and pl: "\<not> passesThenable ev"
  shows "tidy (step ev w)"
proof (cases w)
  case (Pair self m)
  note w = Pair
  from inv w have ch: "chainOK (self, m)" and ids: "idsOK (self, m)" and st: "statesOK (self, m)"
    by (simp_all add: invariant_def)
  note td' = td [unfolded w]
  show ?thesis
  proof (cases ev)
    case (Configure c)
    with td w show ?thesis by (simp add: tidy_def configure_def)
  next
    case (Push f)
    with td' w tidy_submit [OF ids td'] show ?thesis
      by (cases "LocalPromise m") (simp_all add: push_None push_Some')
  next
    case (Unshift f)
    with td' w tidy_submit [OF ids td'] show ?thesis
      by (cases "LocalPromise m") (simp_all add: unshift_None unshift_Some')
  next
    case (Fire k)
    with w tidy_fire [OF st td'] show ?thesis by simp
  next
    case (Succeed k v)
    show ?thesis
    proof (cases "linkEntry k self")
      case None
      with Succeed td w show ?thesis by simp
    next
      case (Some e)
      with Succeed w pl step_report(1) [OF ch ids Some, of v]
        tidy_settle [OF ch ids st td' Some, of "resolution v"]
      show ?thesis by simp
    qed
  next
    case (Fail k v)
    show ?thesis
    proof (cases "linkEntry k self")
      case None
      with Fail td w show ?thesis by simp
    next
      case (Some e)
      with Fail w step_report(2) [OF ch ids Some, of v]
        tidy_settle [OF ch ids st td' Some, of "Rejected v"]
      show ?thesis by simp
    qed
  next
    case (Throw k)
    with td w show ?thesis by (simp add: tidy_def)
  next
    case (OwnResolve k v)
    show ?thesis
    proof (cases "linkEntry k self")
      case None
      with OwnResolve td w show ?thesis by simp
    next
      case (Some e)
      with OwnResolve w pl step_report(3) [OF ch ids Some, of v]
        tidy_settle [OF ch ids st td' Some, of "resolution v"]
      show ?thesis by simp
    qed
  next
    case (OwnReject k v)
    show ?thesis
    proof (cases "linkEntry k self")
      case None
      with OwnReject td w show ?thesis by simp
    next
      case (Some e)
      with OwnReject w step_report(4) [OF ch ids Some, of v]
        tidy_settle [OF ch ids st td' Some, of "Rejected v"]
      show ?thesis by simp
    qed
  next
    case (ThenResolve p v)
    with td' w show ?thesis by (simp add: adopt_tidy)
  next
    case (ThenReject p v)
    with td' w show ?thesis by (simp add: adopt_tidy)
  qed
qed

lemma tidy_exec:
  "invariant w \<Longrightarrow> tidy w \<Longrightarrow> \<forall>ev \<in> set t. \<not> passesThenable ev \<Longrightarrow> tidy (exec t w)"
proof (induction t arbitrary: w)
  case Nil
  then show ?case by simp
next
  case (Cons ev t)
  from Cons.prems have "\<not> passesThenable ev" by simp
  from tidy_step [OF Cons.prems(1,2) this] invariant_step [OF Cons.prems(1)] Cons
  show ?case by simp
qed

lemma tidy_fresh: "tidy (fresh P)"
  by (simp add: tidy_def fresh_def loaded_def)

section \<open>Units are called one at a time\<close>

lemma take_Done:
  "\<forall>i < k. isDone (c ! i) \<Longrightarrow> k \<le> length c \<Longrightarrow> take k c = map Done (popped (take k c))"
proof (induction k)
  case 0
  then show ?case by simp
next
  case (Suc k)
  then have "isDone (c ! k)" and k: "k < length c" by simp_all
  then obtain e where e: "c ! k = Done e" by (cases "c ! k") simp_all
  from Suc have "take k c = map Done (popped (take k c))" by simp
  with k e show ?case by (simp add: take_Suc_conv_app_nth popped_append)
qed

lemma invoked_step_Fire:
  "invoked (snd (step ev w)) \<noteq> invoked (snd w) \<Longrightarrow> \<exists>k. ev = Fire k"
proof (cases w)
  case (Pair self m)
  assume a: "invoked (snd (step ev w)) \<noteq> invoked (snd w)"
  show ?thesis
  proof (cases ev)
    case (Push f)
    with a Pair show ?thesis by (cases "LocalPromise m") (simp_all add: push_None push_Some)
  next
    case (Unshift f)
    with a Pair show ?thesis by (cases "LocalPromise m") (simp_all add: unshift_None unshift_Some)
  qed (use a Pair in \<open>simp_all add: configure_def finishPromise_def split: option.splits\<close>)
qed

text \<open>When the callback of a link calls a unit, every link before it is fulfilled and
  holds the entries called so far, in order.\<close>

lemma call_after_reports:
  assumes inv: "invariant w" and ch: "invoked (snd (step ev w)) \<noteq> invoked (snd w)"
  shows "ev = Fire (length (invoked (snd w)))
         \<and> take (length (invoked (snd w))) (globalPromise (fst w)) = map Done (invoked (snd w))
         \<and> promiseFunctionArray (fst w) \<noteq> []
         \<and> invoked (snd (step ev w)) = invoked (snd w) @ [hd (promiseFunctionArray (fst w))]
         \<and> promiseFunctionArray (fst (step ev w)) = tl (promiseFunctionArray (fst w))"
proof (cases w)
  case (Pair self m)
  from invoked_step_Fire [OF ch] obtain k where ev: "ev = Fire k" by blast
  from inv Pair have ord: "ordered (globalPromise self)"
    and pop: "popped (globalPromise self) = invoked m"
    by (simp_all add: invariant_def chainOK_def)
  show ?thesis
  proof (cases rule: fire_cases [of k self m])
    case idle
    with ch ev Pair show ?thesis by simp
  next
    case reject
    with ch ev Pair show ?thesis by simp
  next
    case (run e rest)
    let ?c = "globalPromise self"
    have before: "\<forall>i < k. isDone (?c ! i)"
      using ordered_all_before_Done [OF ord run(1,3)] .
    have td: "take k ?c = map Done (popped (take k ?c))"
      using take_Done [OF before] run(1) by simp
    have "popped (drop (Suc k) ?c) = []"
      using popped_after_undone [OF ord run(1)] run(2) by simp
    with popped_split [OF run(1)] run(2) pop have pk: "popped (take k ?c) = invoked m"
      by simp
    have "length (take k ?c) = length (map Done (popped (take k ?c)))"
      using td by simp
    with pk run(1) have k: "k = length (invoked m)" by simp
    from td pk k run ev Pair show ?thesis by simp
  qed
qed

lemma fired_prefix:
  "ordered c \<Longrightarrow> popped c = xs @ [e] \<Longrightarrow>
   \<exists>k < length c. entryOf (c ! k) = Some e \<and> take k c = map Done xs"
proof (induction c rule: rev_induct)
  case Nil
  then show ?case by simp
next
  case (snoc l c)
  have ord': "ordered c"
    using snoc.prems(1) unfolding ordered_def
    by (auto simp: nth_append less_Suc_eq split: if_splits)
  show ?case
  proof (cases "entryOf l")
    case None
    with snoc.prems(2) have "popped c = xs @ [e]" by (simp add: popped_append)
    from snoc.IH [OF ord' this] obtain k where "k < length c" "entryOf (c ! k) = Some e"
      "take k c = map Done xs" by blast
    then show ?thesis by (auto simp: nth_append intro!: exI [of _ k])
  next
    case (Some e')
    with snoc.prems(2) have p: "popped c = xs" and e: "e' = e" by (simp_all add: popped_append)
    have "\<forall>i < length c. isDone ((c @ [l]) ! i)"
      using ordered_before_fired [OF snoc.prems(1), of "length c" e'] Some by simp
    then have "\<forall>i < length c. isDone (c ! i)" by (simp add: nth_append)
    from take_Done [OF this] p have c: "c = map Done xs" by simp
    have "entryOf ((c @ [l]) ! length c) = Some e" using Some e by simp
    moreover have "take (length c) (c @ [l]) = c" by simp
    ultimately have "length c < length (c @ [l]) \<and> entryOf ((c @ [l]) ! length c) = Some e
        \<and> take (length c) (c @ [l]) = map Done xs"
      using c by simp
    then show ?thesis by blast
  qed
qed

section \<open>Order of settlements and of submissions\<close>

declare step.simps [simp del]

lemma fn_entryFor [simp]: "fn (entryFor f p) = f"
  by (simp add: entryFor_def)

lemma settlements_prefix:
  assumes inv: "invariant w" and td: "tidy w"
  shows "settlements (snd w) = take (length (settlements (snd w))) (map pid (invoked (snd w)))"
proof (cases "invoked (snd w)" rule: rev_cases)
  case Nil
  with td show ?thesis by (simp add: tidy_def)
next
  case (snoc xs e)
  let ?c = "globalPromise (fst w)"
  let ?np = "\<lambda>e. state (promises (snd w) ! pid e) \<noteq> Pending"
  from inv have ord: "ordered ?c" and pop: "popped ?c = invoked (snd w)"
    by (simp_all add: invariant_def chainOK_def)
  from fired_prefix [OF ord, of xs e] pop snoc
  obtain k where k: "k < length ?c" and tk: "take k ?c = map Done xs" by auto
  have "\<forall>x \<in> set xs. ?np x"
  proof
    fix x assume "x \<in> set xs"
    then obtain i where i: "i < length xs" and x: "xs ! i = x" by (auto simp: in_set_conv_nth)
    from tk have "length xs = k" using k by (metis length_map length_take min.absorb2 less_imp_le)
    with i have ik: "i < k" by simp
    have "take k ?c ! i = Done x" using tk i x by simp
    with ik have "?c ! i = Done x" by simp
    moreover from ik k have "i < length ?c" by simp
    ultimately show "?np x" using inv by (simp add: invariant_def statesOK_def)
  qed
  then have "filter ?np xs = xs" by (simp add: filter_id_conv)
  with td snoc have "settlements (snd w) = map pid xs @ (if ?np e then [pid e] else [])"
    by (simp add: tidy_def)
  with snoc show ?thesis by simp
qed

lemma length_promises_step_mono:
  "length (promises (snd w)) \<le> length (promises (snd (step ev w)))"
  by (simp add: length_promises_step split: event.splits)

lemma length_promises_exec_mono:
  "length (promises (snd w)) \<le> length (promises (snd (exec t w)))"
proof (induction t arbitrary: w)
  case Nil
  then show ?case by simp
next
  case (Cons ev t)
  from length_promises_step_mono [of w ev] Cons [of "step ev w"] show ?case by simp
qed

lemma LocalPromise_step_Configure: "LocalPromise (snd (step (Configure c) w)) = c"
  by (simp add: configure_def step.simps)

lemma LocalPromise_step':
  "LocalPromise (snd (step ev w)) =
     (case ev of Configure c \<Rightarrow> c | _ \<Rightarrow> LocalPromise (snd w))"
  using LocalPromise_step [of ev "fst w" "snd w"]
  by (cases ev) (simp_all add: LocalPromise_step_Configure)

lemma pushes_fn:
  "\<forall>ev \<in> set t. \<not> isUnshift ev \<Longrightarrow>
   map fn (timeline (exec t w)) = map fn (timeline w) @ submitted (LocalPromise (snd w)) t"
proof (induction t arbitrary: w)
  case Nil
  then show ?case by simp
next
  case (Cons ev t)
  then have IH: "map fn (timeline (exec t (step ev w))) =
      map fn (timeline (step ev w)) @ submitted (LocalPromise (snd (step ev w))) t"
    by simp
  from Cons.prems have "\<not> isUnshift ev" by simp
  then show ?case
    unfolding exec.simps IH timeline_step LocalPromise_step'
    by (cases ev) simp_all
qed

lemma pushes_pid:
  "\<forall>ev \<in> set t. \<not> isUnshift ev \<Longrightarrow>
   map pid (timeline (exec t w)) =
     map pid (timeline w) @ [length (promises (snd w)) ..< length (promises (snd (exec t w)))]"
proof (induction t arbitrary: w)
  case Nil
  then show ?case by simp
next
  case (Cons ev t)
  then have IH: "map pid (timeline (exec t (step ev w))) =
      map pid (timeline (step ev w)) @
      [length (promises (snd (step ev w))) ..< length (promises (snd (exec t (step ev w))))]"
    by simp
  have mono: "length (promises (snd (step ev w))) \<le> length (promises (snd (exec t (step ev w))))"
    by (rule length_promises_exec_mono)
  show ?case
  proof (cases ev)
    case (Push f)
    show ?thesis
    proof (cases "LocalPromise (snd w)")
      case None
      with Push IH show ?thesis
        by (simp add: timeline_step length_promises_step del: step.simps)
    next
      case (Some P)
      with Push mono have "length (promises (snd w)) < length (promises (snd (exec t (step ev w))))"
        by (simp add: length_promises_step)
      from upt_conv_Cons [OF this] Push Some IH show ?thesis
        by (simp add: timeline_step length_promises_step del: step.simps)
    qed
  next
    case (Unshift f)
    with Cons.prems show ?thesis by simp
  qed (use IH in \<open>simp_all add: timeline_step length_promises_step del: step.simps\<close>)
qed

text \<open>The equations that evaluate a concrete run.\<close>

lemmas run_simps =
  step.simps fresh_def loaded_def push_def unshift_def changeQueue_def configure_def
  fire_def callback_def linkEntry_def finishPromise_def globalResolve_def throw_def
  settle_def adopt_def put_def entryFor_def pid_def timeline_def Let_def

lemma all_reported:
  assumes inv: "invariant w"
    and tk: "take (length (invoked (snd w))) (globalPromise (fst w)) = map Done (invoked (snd w))"
  shows "\<forall>e \<in> set (invoked (snd w)). state (promises (snd w) ! pid e) \<noteq> Pending"
proof
  let ?c = "globalPromise (fst w)" and ?n = "length (invoked (snd w))"
  fix e assume "e \<in> set (invoked (snd w))"
  then obtain i where i: "i < ?n" "invoked (snd w) ! i = e" by (auto simp: in_set_conv_nth)
  have "length (take ?n ?c) = ?n" using tk by simp
  then have n: "?n \<le> length ?c" by simp
  have "take ?n ?c ! i = Done e" using tk i by simp
  with i have "?c ! i = Done e" by simp
  moreover have "i < length ?c" using i n by simp
  ultimately show "state (promises (snd w) ! pid e) \<noteq> Pending"
    using inv by (simp add: invariant_def statesOK_def)
qed

lemma all_settled:
  assumes inv: "invariant w" and td: "tidy w"
    and tk: "take (length (invoked (snd w))) (globalPromise (fst w)) = map Done (invoked (snd w))"
  shows "length (settlements (snd w)) = length (invoked (snd w))"
proof -
  from all_reported [OF inv tk]
  have "filter (\<lambda>e. state (promises (snd w) ! pid e) \<noteq> Pending) (invoked (snd w)) =
      invoked (snd w)" by (simp add: filter_id_conv)
  with td show ?thesis by (simp add: tidy_def)
qed

section \<open>Relative order in the timeline\<close>

text \<open>Entries keep their place relative to each other: a run only inserts new entries
  into the timeline, each with the next free promise index.\<close>

lemma filter_timeline_step:
  "\<not> Q (length (promises (snd w))) \<Longrightarrow>
   filter (\<lambda>e. Q (pid e)) (timeline (step ev w)) = filter (\<lambda>e. Q (pid e)) (timeline w)"
  by (cases ev) (simp_all add: timeline_step, simp_all add: timeline_def)

lemma filter_timeline_exec:
  "\<forall>p. length (promises (snd w)) \<le> p \<and> p < length (promises (snd (exec t w))) \<longrightarrow> \<not> Q p \<Longrightarrow>
   filter (\<lambda>e. Q (pid e)) (timeline (exec t w)) = filter (\<lambda>e. Q (pid e)) (timeline w)"
proof (induction t arbitrary: w)
  case Nil
  then show ?case by simp
next
  case (Cons ev t)
  have m1: "length (promises (snd w)) \<le> length (promises (snd (step ev w)))"
    by (rule length_promises_step_mono)
  have m2: "length (promises (snd (step ev w))) \<le> length (promises (snd (exec t (step ev w))))"
    by (rule length_promises_exec_mono)
  have "filter (\<lambda>e. Q (pid e)) (timeline (exec t (step ev w))) =
        filter (\<lambda>e. Q (pid e)) (timeline (step ev w))"
  proof (rule Cons.IH, intro allI impI)
    fix p assume "length (promises (snd (step ev w))) \<le> p \<and>
        p < length (promises (snd (exec t (step ev w))))"
    with m1 Cons.prems show "\<not> Q p" by simp
  qed
  also have "\<dots> = filter (\<lambda>e. Q (pid e)) (timeline w)"
  proof (cases "length (promises (snd (step ev w))) = length (promises (snd w))")
    case True
    then have "timeline (step ev w) = timeline w"
      by (cases ev) (simp_all add: timeline_step length_promises_step split: if_splits)
    then show ?thesis by simp
  next
    case False
    with m1 m2 have "length (promises (snd w)) < length (promises (snd (exec t (step ev w))))"
      by simp
    with Cons.prems have "\<not> Q (length (promises (snd w)))" by simp
    then show ?thesis by (rule filter_timeline_step)
  qed
  finally show ?case by simp
qed

lemma invoked_step_subset: "set (invoked (snd w)) \<subseteq> set (invoked (snd (step ev w)))"
proof (cases "invoked (snd (step ev w)) = invoked (snd w)")
  case True
  then show ?thesis by simp
next
  case False
  then obtain k where ev: "ev = Fire k" using invoked_step_Fire by blast
  obtain self m where w: "w = (self, m)" by (cases w)
  show ?thesis
    unfolding ev w
    by (cases rule: fire_cases [of k self m]) (auto simp: step.simps)
qed

lemma invoked_exec_subset: "set (invoked (snd w)) \<subseteq> set (invoked (snd (exec t w)))"
proof (induction t arbitrary: w)
  case Nil
  then show ?case by simp
next
  case (Cons ev t)
  from invoked_step_subset [of w ev] Cons [of "step ev w"] show ?case by auto
qed

lemma push_is_step:
  "push f w = Inr (p, w') \<Longrightarrow>
   w' = step (Push f) w \<and> p = length (promises (snd w)) \<and> LocalPromise (snd w) \<noteq> None"
  by (cases w; cases "LocalPromise (snd w)") (auto simp: step.simps push_None push_Some')

lemma unshift_is_step:
  "unshift f w = Inr (p, w') \<Longrightarrow>
   w' = step (Unshift f) w \<and> p = length (promises (snd w)) \<and> LocalPromise (snd w) \<noteq> None"
  by (cases w; cases "LocalPromise (snd w)") (auto simp: step.simps unshift_None unshift_Some')

lemma filter_pid_unique:
  "distinct (map pid L) \<Longrightarrow> b \<in> set L \<Longrightarrow> filter (\<lambda>e. pid e = pid b) L = [b]"
proof (induction L)
  case Nil
  then show ?case by simp
next
  case (Cons x L)
  show ?case
  proof (cases "x = b")
    case True
    with Cons.prems have "pid b \<notin> pid ` set L" by simp
    then have "\<forall>e \<in> set L. pid e \<noteq> pid b" by (metis imageI)
    then have "filter (\<lambda>e. pid e = pid b) L = []" by (simp add: filter_empty_conv)
    with True show ?thesis by simp
  next
    case False
    with Cons.prems have "b \<in> set L" by simp
    with Cons.prems have "pid x \<notin> pid ` set L" by simp
    with \<open>b \<in> set L\<close> have "pid x \<noteq> pid b" by (metis imageI)
    with Cons \<open>b \<in> set L\<close> show ?thesis by simp
  qed
qed

lemma array_step_no_push:
  assumes "\<not> isPush ev"
    and "sorted_wrt (>) (map pid (promiseFunctionArray (fst w)))"
    and "\<forall>e \<in> set (promiseFunctionArray (fst w)). pid e < length (promises (snd w))"
  shows "sorted_wrt (>) (map pid (promiseFunctionArray (fst (step ev w))))
       \<and> (\<forall>e \<in> set (promiseFunctionArray (fst (step ev w))).
             pid e < length (promises (snd (step ev w))))"
proof (cases w)
  case (Pair self m)
  show ?thesis
  proof (cases ev)
    case (Push f)
    with assms show ?thesis by simp
  next
    case (Unshift f)
    with assms Pair show ?thesis
      by (cases "LocalPromise m") (auto simp: step.simps unshift_None unshift_Some')
  next
    case (Fire k)
    show ?thesis
      unfolding Fire Pair step.simps
      using assms Pair
      by (cases rule: fire_cases [of k self m]) auto
  next
    case (Configure c)
    with assms Pair show ?thesis by (simp add: step.simps configure_def)
  next
    case (Succeed k v)
    with assms Pair show ?thesis
      by (simp add: step.simps finishPromise_def split: option.splits)
  next
    case (Fail k v)
    with assms Pair show ?thesis
      by (simp add: step.simps finishPromise_def split: option.splits)
  next
    case (Throw k)
    with assms Pair show ?thesis by (simp add: step.simps)
  next
    case (OwnResolve k v)
    with assms Pair show ?thesis by (simp add: step.simps split: option.splits)
  next
    case (OwnReject k v)
    with assms Pair show ?thesis by (simp add: step.simps split: option.splits)
  next
    case (ThenResolve p v)
    with assms Pair show ?thesis by (simp add: step.simps)
  next
    case (ThenReject p v)
    with assms Pair show ?thesis by (simp add: step.simps)
  qed
qed

lemma array_exec_no_push:
  "\<forall>ev \<in> set t. \<not> isPush ev \<Longrightarrow>
   sorted_wrt (>) (map pid (promiseFunctionArray (fst w))) \<Longrightarrow>
   \<forall>e \<in> set (promiseFunctionArray (fst w)). pid e < length (promises (snd w)) \<Longrightarrow>
   sorted_wrt (>) (map pid (promiseFunctionArray (fst (exec t w))))
   \<and> (\<forall>e \<in> set (promiseFunctionArray (fst (exec t w))).
         pid e < length (promises (snd (exec t w))))"
proof (induction t arbitrary: w)
  case Nil
  then show ?case by simp
next
  case (Cons ev t)
  from Cons.prems have "\<not> isPush ev" by simp
  from array_step_no_push [OF this Cons.prems(2,3)] Cons.prems(1) Cons.IH [of "step ev w"]
  show ?case by simp
qed

lemma before_in_pair: "A @ b # B = [a, b] \<Longrightarrow> a \<noteq> b \<Longrightarrow> A = [a]"
proof (cases A)
  case Nil
  assume "A @ b # B = [a, b]" "a \<noteq> b"
  with Nil show ?thesis by simp
next
  case (Cons x A')
  assume "A @ b # B = [a, b]" "a \<noteq> b"
  with Cons show ?thesis by (cases A') simp_all
qed

lemma invoked_push:
  "push f w = Inr (p, w') \<Longrightarrow> invoked (snd w') = invoked (snd w)"
  by (cases w; cases "LocalPromise (snd w)") (auto simp: push_None push_Some')

lemma invoked_unshift:
  "unshift f w = Inr (p, w') \<Longrightarrow> invoked (snd w') = invoked (snd w)"
  by (cases w; cases "LocalPromise (snd w)") (auto simp: unshift_None unshift_Some')

lemma timeline_push:
  "push f w = Inr (p, w') \<Longrightarrow>
   timeline w' = timeline w @ [entryFor f p] \<and> length (promises (snd w')) = Suc p
   \<and> p = length (promises (snd w))"
  by (cases w; cases "LocalPromise (snd w)") (auto simp: push_None push_Some' timeline_def)

lemma timeline_unshift:
  "unshift f w = Inr (p, w') \<Longrightarrow>
   timeline w' = invoked (snd w) @ entryFor f p # promiseFunctionArray (fst w)
   \<and> length (promises (snd w')) = Suc p \<and> p = length (promises (snd w))"
  by (cases w; cases "LocalPromise (snd w)") (auto simp: unshift_None unshift_Some' timeline_def)

lemma invariant_push: "invariant w \<Longrightarrow> push f w = Inr (p, w') \<Longrightarrow> invariant w'"
  using push_is_step [of f w p w'] invariant_step [of w "Push f"] by simp

lemma invariant_unshift: "invariant w \<Longrightarrow> unshift f w = Inr (p, w') \<Longrightarrow> invariant w'"
  using unshift_is_step [of f w p w'] invariant_step [of w "Unshift f"] by simp

text \<open>What a filter on promise indices sees of a state, when no selected index is
  allocated during a run.\<close>

lemma filter_run:
  assumes "w' = exec t w"
    and "\<forall>q \<in> S. q < length (promises (snd w)) \<or> length (promises (snd w')) \<le> q"
  shows "filter (\<lambda>e. pid e \<in> S) (timeline w') = filter (\<lambda>e. pid e \<in> S) (timeline w)"
  unfolding assms(1)
  by (rule filter_timeline_exec) (use assms in fastforce)

lemma filter_none:
  assumes "idsOK w" and "\<forall>q \<in> S. length (promises (snd w)) \<le> q"
  shows "filter (\<lambda>e. pid e \<in> S) (timeline w) = []"
  using idsOK_pid_bound [OF assms(1)] assms(2) by (fastforce simp: filter_empty_conv)

section \<open>Runs that differ in one reported outcome\<close>

lemma alike_settle:
  assumes "alike p (self, m) (self', m')"
  shows "alike p (self, settle q s m) (self', settle q s m')"
proof -
  have c: "(q < length (promises m) \<and> state (promises m ! q) = Pending) =
           (q < length (promises m') \<and> state (promises m' ! q) = Pending)"
    using assms by (cases "q = p") (auto simp: alike_def)
  show ?thesis
  proof (cases "q < length (promises m) \<and> state (promises m ! q) = Pending")
    case False
    then have "settle q s m = m" by (auto simp: settle_def)
    moreover from False c have "settle q s m' = m'" by (auto simp: settle_def)
    ultimately show ?thesis using assms by simp
  next
    case True
    then have 1: "settle q s m = put q s m" by (simp add: settle_def)
    from True c have 2: "settle q s m' = put q s m'" by (simp add: settle_def)
    show ?thesis
      unfolding 1 2 using assms True c
      by (cases "q = p") (auto simp: alike_def put_def nth_list_update)
  qed
qed

lemma alike_adopt:
  assumes "alike p (self, m) (self', m')" and s: "s \<noteq> Pending"
  shows "alike p (self, adopt q s m) (self', adopt q s m')"
proof (cases "q = p")
  case False
  with assms(1) have c: "(q < length (promises m) \<and> following (state (promises m ! q))) =
           (q < length (promises m') \<and> following (state (promises m' ! q)))"
    by (auto simp: alike_def)
  show ?thesis
  proof (cases "q < length (promises m) \<and> following (state (promises m ! q))")
    case no: False
    then have "adopt q s m = m" by (auto simp: adopt_def)
    moreover from no c have "adopt q s m' = m'" by (auto simp: adopt_def)
    ultimately show ?thesis using assms by simp
  next
    case True
    then have 1: "adopt q s m = put q s m" by (simp add: adopt_def)
    from True c have 2: "adopt q s m' = put q s m'" by (simp add: adopt_def)
    show ?thesis
      unfolding 1 2 using assms True c False
      by (auto simp: alike_def put_def nth_list_update)
  qed
next
  case True
  have a: "alike p (self, m1) (self', m2) \<Longrightarrow> alike p (self, adopt p s m1) (self', m2)" for m1 m2
    using s by (auto simp: alike_def adopt_def put_def nth_list_update dest: following_not_Pending)
  have b: "alike p (self, m1) (self', m2) \<Longrightarrow> alike p (self, m1) (self', adopt p s m2)" for m1 m2
    using s by (auto simp: alike_def adopt_def put_def nth_list_update dest: following_not_Pending)
  from a [OF b [OF assms(1)]] True show ?thesis by simp
qed

lemma fire_fst_indep:
  "LocalPromise m' = LocalPromise m \<Longrightarrow> fst (fire k (self, m')) = fst (fire k (self, m))"
  by (auto simp: fire_def callback_def split: link.splits option.splits list.splits)

lemma fire_invoked_indep:
  "LocalPromise m' = LocalPromise m \<Longrightarrow> invoked m' = invoked m \<Longrightarrow>
   invoked (snd (fire k (self, m'))) = invoked (snd (fire k (self, m)))"
  by (auto simp: fire_def callback_def split: link.splits option.splits list.splits)

lemma alike_applyFn:
  "alike p (self, m) (self', m') \<Longrightarrow> alike p (self, applyFn h v m) (self', applyFn h v m')"
  by (cases h) (simp_all add: alike_settle)

lemma alike_chain:
  "alike p (self, m) (self', m') \<Longrightarrow> alike p (g self, m) (g self', m')"
  by (simp add: alike_def)

lemma alike_step:
  assumes "alike p w w'"
  shows "alike p (step ev w) (step ev w')"
proof -
  obtain self m where w: "w = (self, m)" by (cases w)
  obtain self' m' where w': "w' = (self', m')" by (cases w')
  from assms w w' have s: "self' = self" and lp: "LocalPromise m' = LocalPromise m"
    by (simp_all add: alike_def)
  show ?thesis
  proof (cases ev)
    case (Configure c)
    with assms w w' show ?thesis by (simp add: step.simps alike_def configure_def)
  next
    case (Push f)
    show ?thesis
    proof (cases "LocalPromise m")
      case None
      with Push assms w w' lp show ?thesis by (simp add: step.simps push_None)
    next
      case (Some P)
      with Push assms w w' lp show ?thesis
        by (auto simp: step.simps push_Some' alike_def nth_append)
    qed
  next
    case (Unshift f)
    show ?thesis
    proof (cases "LocalPromise m")
      case None
      with Unshift assms w w' lp show ?thesis by (simp add: step.simps unshift_None)
    next
      case (Some P)
      with Unshift assms w w' lp show ?thesis
        by (auto simp: step.simps unshift_Some' alike_def nth_append)
    qed
  next
    case (Fire k)
    from assms w w' s show ?thesis
      unfolding Fire step.simps
      by (simp add: alike_def fire_fst_indep [of m' m] fire_invoked_indep [of m' m]
            promises_fire)
  next
    case (Succeed k v)
    with assms w w' s show ?thesis
      by (cases "linkEntry k self")
         (simp_all add: step.simps finishPromise_def alike_applyFn alike_chain)
  next
    case (Fail k v)
    with assms w w' s show ?thesis
      by (cases "linkEntry k self")
         (simp_all add: step.simps finishPromise_def alike_applyFn alike_chain)
  next
    case (Throw k)
    with assms w w' s show ?thesis by (simp add: step.simps alike_chain)
  next
    case (OwnResolve k v)
    with assms w w' s show ?thesis
      by (cases "linkEntry k self") (simp_all add: step.simps alike_applyFn)
  next
    case (OwnReject k v)
    with assms w w' s show ?thesis
      by (cases "linkEntry k self") (simp_all add: step.simps alike_applyFn)
  next
    case (ThenResolve q v)
    with assms w w' s show ?thesis by (simp add: step.simps alike_adopt)
  next
    case (ThenReject q v)
    with assms w w' s show ?thesis by (simp add: step.simps alike_adopt)
  qed
qed

lemma alike_exec: "alike p w w' \<Longrightarrow> alike p (exec t w) (exec t w')"
  by (induction t arbitrary: w w') (simp_all add: alike_step)

lemma alike_reports:
  assumes "p < length (promises m)" "s \<noteq> Pending" "s' \<noteq> Pending"
  shows "alike p (self, settle p s m) (self, settle p s' m)"
  using assms by (auto simp: alike_def settle_def put_def nth_list_update)

text \<open>What one event does to a promise of the store: a report for it changes it if no
  function of it was called before, and a call by the thenable it follows changes it
  while it follows one.\<close>

lemma promise_step:
  assumes inv: "invariant w" and q: "q < length (promises (snd w))"
  shows "state (promises (snd (step ev w)) ! q) =
     (case reportOf ev (fst w) of
        Some (q', s) \<Rightarrow> if q' = q \<and> state (promises (snd w) ! q) = Pending then s
                        else state (promises (snd w) ! q)
      | None \<Rightarrow>
          (case adoptOf ev of
             Some (q', s) \<Rightarrow> if q' = q \<and> following (state (promises (snd w) ! q)) then s
                             else state (promises (snd w) ! q)
           | None \<Rightarrow> state (promises (snd w) ! q)))"
    and "maker (promises (snd (step ev w)) ! q) = maker (promises (snd w) ! q)"
proof -
  obtain self m where w: "w = (self, m)" by (cases w)
  from inv w have ch: "chainOK (self, m)" and ids: "idsOK (self, m)"
    by (simp_all add: invariant_def)
  have "state (promises (snd (step ev w)) ! q) =
     (case reportOf ev (fst w) of
        Some (q', s) \<Rightarrow> if q' = q \<and> state (promises (snd w) ! q) = Pending then s
                        else state (promises (snd w) ! q)
      | None \<Rightarrow>
          (case adoptOf ev of
             Some (q', s) \<Rightarrow> if q' = q \<and> following (state (promises (snd w) ! q)) then s
                             else state (promises (snd w) ! q)
           | None \<Rightarrow> state (promises (snd w) ! q)))
    \<and> maker (promises (snd (step ev w)) ! q) = maker (promises (snd w) ! q)"
  proof (cases ev)
    case (Configure c)
    with w show ?thesis by (simp add: step.simps configure_def)
  next
    case (Push f)
    with w q show ?thesis
      by (cases "LocalPromise m") (simp_all add: step.simps push_None push_Some' nth_append)
  next
    case (Unshift f)
    with w q show ?thesis
      by (cases "LocalPromise m") (simp_all add: step.simps unshift_None unshift_Some' nth_append)
  next
    case (Fire k)
    with w show ?thesis by (simp add: step.simps promises_fire)
  next
    case (Succeed k v)
    show ?thesis
    proof (cases "linkEntry k self")
      case None
      with Succeed w show ?thesis by (simp add: step.simps)
    next
      case (Some e)
      from step_report(1) [OF ch ids Some, of v] Succeed w Some q show ?thesis
        by (auto simp: state_settle)
    qed
  next
    case (Fail k v)
    show ?thesis
    proof (cases "linkEntry k self")
      case None
      with Fail w show ?thesis by (simp add: step.simps)
    next
      case (Some e)
      from step_report(2) [OF ch ids Some, of v] Fail w Some q show ?thesis
        by (auto simp: state_settle)
    qed
  next
    case (Throw k)
    with w show ?thesis by (simp add: step.simps)
  next
    case (OwnResolve k v)
    show ?thesis
    proof (cases "linkEntry k self")
      case None
      with OwnResolve w show ?thesis by (simp add: step.simps)
    next
      case (Some e)
      from step_report(3) [OF ch ids Some, of v] OwnResolve w Some q show ?thesis
        by (auto simp: state_settle)
    qed
  next
    case (OwnReject k v)
    show ?thesis
    proof (cases "linkEntry k self")
      case None
      with OwnReject w show ?thesis by (simp add: step.simps)
    next
      case (Some e)
      from step_report(4) [OF ch ids Some, of v] OwnReject w Some q show ?thesis
        by (auto simp: state_settle)
    qed
  next
    case (ThenResolve p v)
    with w q show ?thesis by (auto simp: step.simps state_adopt)
  next
    case (ThenReject p v)
    with w q show ?thesis by (auto simp: step.simps state_adopt)
  qed
  then show "state (promises (snd (step ev w)) ! q) =
     (case reportOf ev (fst w) of
        Some (q', s) \<Rightarrow> if q' = q \<and> state (promises (snd w) ! q) = Pending then s
                        else state (promises (snd w) ! q)
      | None \<Rightarrow>
          (case adoptOf ev of
             Some (q', s) \<Rightarrow> if q' = q \<and> following (state (promises (snd w) ! q)) then s
                             else state (promises (snd w) ! q)
           | None \<Rightarrow> state (promises (snd w) ! q)))"
    and "maker (promises (snd (step ev w)) ! q) = maker (promises (snd w) ! q)"
    by simp_all
qed

text \<open>A settled promise stays as it is.\<close>

lemma settled_stays:
  "invariant w \<Longrightarrow> q < length (promises (snd w)) \<Longrightarrow> state (promises (snd w) ! q) \<noteq> Pending \<Longrightarrow>
   \<not> following (state (promises (snd w) ! q)) \<Longrightarrow>
   state (promises (snd (exec t w)) ! q) = state (promises (snd w) ! q)"
proof (induction t arbitrary: w)
  case Nil
  then show ?case by simp
next
  case (Cons ev t)
  have 1: "state (promises (snd (step ev w)) ! q) = state (promises (snd w) ! q)"
    using promise_step(1) [OF Cons.prems(1,2), of ev] Cons.prems(3,4)
    by (simp split: option.splits prod.splits)
  have 2: "q < length (promises (snd (step ev w)))"
    using Cons.prems(2) length_promises_step_mono [of w ev] by simp
  from Cons.IH [OF invariant_step [OF Cons.prems(1)] 2] 1 Cons.prems(3,4)
  show ?case by simp
qed

lemma link_pids_differ:
  assumes ch: "chainOK w" and ids: "idsOK w" and jk: "j < k"
    and ej: "linkEntry j (fst w) = Some e" and ek: "linkEntry k (fst w) = Some e'"
  shows "pid e \<noteq> pid e'"
proof -
  let ?c = "globalPromise (fst w)"
  from ek have k: "k < length ?c" and ek': "entryOf (?c ! k) = Some e'"
    by (auto simp: linkEntry_def split: if_splits)
  from ej jk k have ej': "entryOf (take k ?c ! j) = Some e" and j: "j < length (take k ?c)"
    by (auto simp: linkEntry_def split: if_splits)
  from popped_mem [OF j ej'] have mem: "e \<in> set (popped (take k ?c))" .
  from ch ids have "distinct (map pid (popped ?c))"
    by (simp add: chainOK_def idsOK_def timeline_def)
  with popped_split [OF k] ek' have "pid e' \<notin> pid ` set (popped (take k ?c))"
    by simp
  with mem show ?thesis by (metis imageI)
qed

section \<open>Counting, stalls and progress\<close>

lemma length_chain_popped: "length c = length (popped c) + unfired c"
  by (induction c) (simp_all add: unfired_def split: option.splits)

lemma length_promises_submitted:
  "length (promises (snd (exec t w))) =
     length (promises (snd w)) + length (submitted (LocalPromise (snd w)) t)"
proof (induction t arbitrary: w)
  case Nil
  then show ?case by simp
next
  case (Cons ev t)
  show ?case
    unfolding exec.simps Cons [of "step ev w"] length_promises_step LocalPromise_step'
    by (cases ev) simp_all
qed

lemma length_timeline: "idsOK w \<Longrightarrow> length (timeline w) = length (promises (snd w))"
proof -
  assume "idsOK w"
  then have "distinct (map pid (timeline w))"
    and "set (map pid (timeline w)) = {..<length (promises (snd w))}"
    by (simp_all add: idsOK_def)
  then have "card {..<length (promises (snd w))} = length (map pid (timeline w))"
    using distinct_card by metis
  then show ?thesis by simp
qed

text \<open>While a link that has fired is not fulfilled, or once a link is rejected, no unit
  is called.\<close>

lemma blocked_no_call:
  assumes inv: "invariant w" and k: "k < length (globalPromise (fst w))"
    and nd: "\<not> isDone (globalPromise (fst w) ! k)" and nw: "globalPromise (fst w) ! k \<noteq> Waiting"
  shows "invoked (snd (step ev w)) = invoked (snd w)"
proof (rule ccontr)
  assume ch: "invoked (snd (step ev w)) \<noteq> invoked (snd w)"
  let ?c = "globalPromise (fst w)" and ?n = "length (invoked (snd w))"
  obtain self m where w: "w = (self, m)" by (cases w)
  from inv have ord: "ordered ?c" by (simp add: invariant_def chainOK_def)
  from call_after_reports [OF inv ch]
  have ev: "ev = Fire ?n" and tk: "take ?n ?c = map Done (invoked (snd w))" by simp_all
  have wt: "?n < length ?c \<and> ?c ! ?n = Waiting"
    using ch unfolding ev w step.simps
    by (cases rule: fire_cases [of "length (invoked m)" self m]) auto
  have dn: "\<forall>i < ?n. isDone (?c ! i)"
  proof (intro allI impI)
    fix i assume i: "i < ?n"
    then have "take ?n ?c ! i = Done (invoked (snd w) ! i)" using tk by simp
    with i show "isDone (?c ! i)" by simp
  qed
  consider "k < ?n" | "k = ?n" | "?n < k" by linarith
  then show False
  proof cases
    case 1
    with dn nd show False by simp
  next
    case 2
    with wt nw show False by simp
  next
    case 3
    have "isDone (?c ! ?n) \<or> isFailed (?c ! ?n)"
      using ord k nw 3 unfolding ordered_def by blast
    with wt show False by simp
  qed
qed

lemma blocked_step:
  assumes k: "k < length (globalPromise (fst w))"
    and nd: "\<not> isDone (globalPromise (fst w) ! k)" and nw: "globalPromise (fst w) ! k \<noteq> Waiting"
    and nr: "\<not> reportsOf k ev"
  shows "k < length (globalPromise (fst (step ev w)))
       \<and> \<not> isDone (globalPromise (fst (step ev w)) ! k)
       \<and> globalPromise (fst (step ev w)) ! k \<noteq> Waiting"
proof -
  obtain self m where w: "w = (self, m)" by (cases w)
  show ?thesis
  proof (cases ev)
    case (Configure c)
    with assms w show ?thesis by (simp add: step.simps)
  next
    case (Push f)
    with assms w show ?thesis
      by (cases "LocalPromise m") (simp_all add: step.simps push_None push_Some' nth_append)
  next
    case (Unshift f)
    with assms w show ?thesis
      by (cases "LocalPromise m") (simp_all add: step.simps unshift_None unshift_Some' nth_append)
  next
    case (Fire j)
    show ?thesis
      unfolding Fire w step.simps using assms w
      by (cases rule: fire_cases [of j self m]) (auto simp: nth_list_update)
  next
    case (Succeed j v)
    with assms w show ?thesis
      by (auto simp: step.simps finishPromise_def globalResolve_def nth_list_update
               split: option.splits link.splits)
  next
    case (Fail j v)
    with assms w show ?thesis
      by (auto simp: step.simps finishPromise_def globalResolve_def nth_list_update
               split: option.splits link.splits)
  next
    case (Throw j)
    with assms w show ?thesis
      by (auto simp: step.simps throw_def nth_list_update split: link.splits)
  next
    case (OwnResolve j v)
    with assms w show ?thesis by (simp add: step.simps split: option.splits)
  next
    case (OwnReject j v)
    with assms w show ?thesis by (simp add: step.simps split: option.splits)
  next
    case (ThenResolve p v)
    with assms w show ?thesis by (simp add: step.simps)
  next
    case (ThenReject p v)
    with assms w show ?thesis by (simp add: step.simps)
  qed
qed

lemma stalled:
  "invariant w \<Longrightarrow> k < length (globalPromise (fst w)) \<Longrightarrow>
   \<not> isDone (globalPromise (fst w) ! k) \<Longrightarrow> globalPromise (fst w) ! k \<noteq> Waiting \<Longrightarrow>
   \<forall>ev \<in> set t. \<not> reportsOf k ev \<Longrightarrow>
   invoked (snd (exec t w)) = invoked (snd w)"
proof (induction t arbitrary: w)
  case Nil
  then show ?case by simp
next
  case (Cons ev t)
  from Cons.prems have nr: "\<not> reportsOf k ev" by simp
  note b = blocked_step [OF Cons.prems(2-4) nr]
  have "invoked (snd (exec t (step ev w))) = invoked (snd (step ev w))"
    using Cons.IH [OF invariant_step [OF Cons.prems(1)], of ev] b Cons.prems(5) by simp
  with blocked_no_call [OF Cons.prems(1-4), of ev] show ?case by simp
qed

lemma unfired_pos: "k < length c \<Longrightarrow> entryOf (c ! k) = None \<Longrightarrow> 0 < unfired c"
  using unfired_split [of k c] by simp

lemma healthy_fire:
  assumes inv: "invariant w" and h: "healthy w n" and n: "n < length (globalPromise (fst w))"
  shows "healthy (step (Fire n) w) n
       \<and> length (globalPromise (fst (step (Fire n) w))) = length (globalPromise (fst w))
       \<and> (\<exists>e. globalPromise (fst (step (Fire n) w)) ! n = Running e
              \<or> globalPromise (fst (step (Fire n) w)) ! n = Done e)"
proof -
  obtain self m where w: "w = (self, m)" by (cases w)
  let ?c = "globalPromise self"
  from h w have lp: "LocalPromise m \<noteq> None" and nf: "\<forall>l \<in> set ?c. \<not> isFailed l"
    and dn: "\<forall>i < n. isDone (?c ! i)" by (simp_all add: healthy_def)
  from n w have n': "n < length ?c" by simp
  from nf n' have nfn: "\<not> isFailed (?c ! n)" by simp
  show ?thesis
  proof (cases rule: fire_cases [of n self m])
    case idle
    have "?c ! n \<noteq> Waiting"
    proof
      assume wt: "?c ! n = Waiting"
      then have "entryOf (?c ! n) = None" by simp
      from unfired_pos [OF n' this] inv w have "promiseFunctionArray self \<noteq> []"
        by (auto simp: invariant_def chainOK_def)
      then obtain e rest where arr: "promiseFunctionArray self = e # rest"
        by (cases "promiseFunctionArray self") auto
      from dn have pre: "n = 0 \<or> isDone (?c ! (n - 1))" by (cases n) simp_all
      from lp obtain P where P: "LocalPromise m = Some P" by auto
      have "fire n (self, m) = callback n (self, m)"
        using wt n' pre by (cases "?c ! (n - 1)") (auto simp: fire_def)
      with P arr have "invoked (snd (fire n (self, m))) = invoked m @ [e]"
        by (simp add: callback_def)
      with idle show False by simp
    qed
    with nfn obtain e where "?c ! n = Running e \<or> ?c ! n = Done e"
      by (cases "?c ! n") auto
    with idle h w show ?thesis by (auto simp: step.simps)
  next
    case reject
    from reject(3) dn nf have pre: "n = 0 \<or> isDone (?c ! (n - 1))"
      by (cases n) auto
    from inv w have "unfired ?c = length (promiseFunctionArray self)"
      by (simp add: invariant_def chainOK_def)
    with unfired_pos [OF n', of] reject(2) have "promiseFunctionArray self \<noteq> []" by auto
    then obtain e rest where arr: "promiseFunctionArray self = e # rest"
      by (cases "promiseFunctionArray self") auto
    from lp obtain P where P: "LocalPromise m = Some P" by auto
    have "fire n (self, m) = callback n (self, m)"
      using reject(1,2) pre by (cases "?c ! (n - 1)") (auto simp: fire_def)
    with P arr have "globalPromise (fst (fire n (self, m))) = ?c[n := Running e]"
      by (simp add: callback_def)
    with reject(4) n' have False
      by (auto dest: arg_cong [where f = "\<lambda>l. l ! n"])
    then show ?thesis ..
  next
    case (run e rest)
    have "\<forall>l \<in> set (?c[n := Running e]). \<not> isFailed l"
      using nf set_update_subset_insert [of ?c n "Running e"] by auto
    moreover have "\<forall>i < n. isDone (?c[n := Running e] ! i)" using dn by simp
    ultimately show ?thesis
      using run lp n' w by (auto simp: step.simps healthy_def)
  qed
qed

lemma healthy_report:
  assumes inv: "invariant w" and h: "healthy w n" and n: "n < length (globalPromise (fst w))"
    and r: "globalPromise (fst w) ! n = Running e \<or> globalPromise (fst w) ! n = Done e"
  shows "healthy (step (reportEv n out) w) (Suc n)
       \<and> length (globalPromise (fst (step (reportEv n out) w))) = length (globalPromise (fst w))"
proof -
  obtain self m where w: "w = (self, m)" by (cases w)
  let ?c = "globalPromise self"
  from inv w have ch: "chainOK (self, m)" and ids: "idsOK (self, m)"
    by (simp_all add: invariant_def)
  from r n w have le: "linkEntry n self = Some e" by (auto simp: linkEntry_def)
  obtain b v where out: "out = (b, v)" by (cases out)
  have st: "fst (step (reportEv n out) w) = globalResolve n self
      \<and> LocalPromise (snd (step (reportEv n out) w)) = LocalPromise m"
    using step_report [OF ch ids le] out w by (cases b) simp_all
  have c': "globalPromise (globalResolve n self) = ?c[n := Done e]"
  proof (cases "?c ! n = Running e")
    case True
    with n w show ?thesis by (simp add: globalResolve_def)
  next
    case False
    with r w have d: "?c ! n = Done e" by simp
    then have "?c[n := Done e] = ?c" by (metis list_update_id)
    with d n w show ?thesis by (simp add: globalResolve_def)
  qed
  from h w have nf: "\<forall>l \<in> set ?c. \<not> isFailed l" and dn: "\<forall>i < n. isDone (?c ! i)"
    and lp: "LocalPromise m \<noteq> None" by (simp_all add: healthy_def)
  have "\<forall>l \<in> set (?c[n := Done e]). \<not> isFailed l"
    using nf set_update_subset_insert [of ?c n "Done e"] by auto
  moreover have "\<forall>i < Suc n. isDone (?c[n := Done e] ! i)"
    using dn n w by (auto simp: nth_list_update less_Suc_eq)
  ultimately show ?thesis
    using st c' lp n w by (simp add: healthy_def)
qed

lemma sweep_Suc: "sweep out (Suc n) = sweep out n @ [Fire n, reportEv n (out n)]"
  by (simp add: sweep_def)

lemma healthy_sweep:
  assumes inv: "invariant w" and h: "healthy w 0"
  shows "n \<le> length (globalPromise (fst w)) \<Longrightarrow>
     healthy (exec (sweep out n) w) n
     \<and> length (globalPromise (fst (exec (sweep out n) w))) = length (globalPromise (fst w))
     \<and> timeline (exec (sweep out n) w) = timeline w"
proof (induction n)
  case 0
  with h show ?case by (simp add: sweep_def)
next
  case (Suc n)
  let ?w = "exec (sweep out n) w"
  from Suc have hn: "healthy ?w n"
    and len: "length (globalPromise (fst ?w)) = length (globalPromise (fst w))"
    and tl: "timeline ?w = timeline w" by simp_all
  have iw: "invariant ?w" using invariant_exec [OF inv] .
  from Suc.prems len have n: "n < length (globalPromise (fst ?w))" by simp
  note f = healthy_fire [OF iw hn n]
  let ?w1 = "step (Fire n) ?w"
  from f obtain e where r: "globalPromise (fst ?w1) ! n = Running e
      \<or> globalPromise (fst ?w1) ! n = Done e" by blast
  from f n have n1: "n < length (globalPromise (fst ?w1))" by simp
  note g = healthy_report [OF invariant_step [OF iw] conjunct1 [OF f] n1 r, where out = "out n"]
  have "exec (sweep out (Suc n)) w = step (reportEv n (out n)) ?w1"
    by (simp add: sweep_Suc exec_append)
  moreover obtain b v where o: "out n = (b, v)" by (cases "out n")
  have "timeline (step (reportEv n (out n)) ?w1) = timeline ?w"
    unfolding o by (cases b) (simp_all add: timeline_step)
  ultimately show ?case using g f len tl by simp
qed

lemma sweep_drains:
  assumes inv: "invariant w" and h: "healthy w 0"
    and w': "w' = exec (sweep out (length (globalPromise (fst w)))) w"
  shows "promiseFunctionArray (fst w') = []
       \<and> invoked (snd w') = invoked (snd w) @ promiseFunctionArray (fst w)
       \<and> globalPromise (fst w') = map Done (invoked (snd w) @ promiseFunctionArray (fst w))"
proof -
  let ?c = "globalPromise (fst w')"
  from healthy_sweep [OF inv h, of "length (globalPromise (fst w))" out] w'
  have hw: "healthy w' (length ?c)" and tl: "timeline w' = timeline w" by simp_all
  then have dn: "\<forall>i < length ?c. isDone (?c ! i)" by (simp add: healthy_def)
  have iw: "invariant w'" unfolding w' using invariant_exec [OF inv] .
  from take_Done [OF dn] have c: "?c = map Done (popped ?c)" by simp
  then have "length ?c = length (popped ?c)" by (metis length_map)
  with length_chain_popped [of ?c] have "unfired ?c = 0" by simp
  with iw have arr: "promiseFunctionArray (fst w') = []"
    by (simp add: invariant_def chainOK_def)
  with tl have "invoked (snd w') = invoked (snd w) @ promiseFunctionArray (fst w)"
    by (simp add: timeline_def)
  moreover from iw have "popped ?c = invoked (snd w')" by (simp add: invariant_def chainOK_def)
  ultimately show ?thesis using arr c by simp
qed

section \<open>The order in which units are called\<close>

text \<open>
  C1. Submit A with \<open>push\<close>, B with \<open>unshift\<close>, C with \<open>push\<close> and D with \<open>unshift\<close>, in
  this order, to a queue in any state it can reach (so also one whose head unit has
  not completed), with any events between and after the four submissions, as long as
  none of A, B, C has been called when D is submitted. Then at every later moment the
  four entries that have been called, in call order, followed by those still in the
  array, in array order, are D, B, A, C: they are called in this order.
\<close>

theorem mixed_submissions_run_D_B_A_C:
  assumes "wA = exec t0 (fresh P)" and "push A wA = Inr (pA, wA')"
    and "wB = exec ta wA'" and "unshift B wB = Inr (pB, wB')"
    and "wC = exec tb wB'" and "push C wC = Inr (pC, wC')"
    and "wD = exec tc wC'" and "unshift D wD = Inr (pD, wD')"
    and "w = exec t wD'"
    and "\<forall>e \<in> set (invoked (snd wD)). pid e \<notin> {pA, pB, pC}"
  shows "filter (\<lambda>e. pid e \<in> {pA, pB, pC, pD}) (invoked (snd w)) @
         filter (\<lambda>e. pid e \<in> {pA, pB, pC, pD}) (promiseFunctionArray (fst w)) =
         [entryFor D pD, entryFor B pB, entryFor A pA, entryFor C pC]"
proof -
  let ?S = "{pA, pB, pC, pD}"
  let ?F = "\<lambda>w. filter (\<lambda>e. pid e \<in> ?S) (timeline w)"
  let ?n = "\<lambda>w. length (promises (snd w))"
  note [simp] = timeline_def
  have iA: "invariant wA" using assms(1) invariant_reachable by simp
  have iA': "invariant wA'" using invariant_push [OF iA assms(2)] .
  have iB: "invariant wB" using assms(3) invariant_exec [OF iA'] by simp
  have iB': "invariant wB'" using invariant_unshift [OF iB assms(4)] .
  have iC: "invariant wC" using assms(5) invariant_exec [OF iB'] by simp
  have iC': "invariant wC'" using invariant_push [OF iC assms(6)] .
  have iD: "invariant wD" using assms(7) invariant_exec [OF iC'] by simp
  note tA = timeline_push [OF assms(2)] and tB = timeline_unshift [OF assms(4)]
    and tC = timeline_push [OF assms(6)] and tD = timeline_unshift [OF assms(8)]
  have nB: "Suc pA \<le> pB"
    using tA tB length_promises_exec_mono [of wA' ta] assms(3) by simp
  have nC: "Suc pB \<le> pC"
    using tB tC length_promises_exec_mono [of wB' tb] assms(5) by simp
  have nD: "Suc pC \<le> pD"
    using tC tD length_promises_exec_mono [of wC' tc] assms(7) by simp
  have nW: "Suc pD \<le> ?n w"
    using tD length_promises_exec_mono [of wD' t] assms(9) by simp
  have sub: "set (invoked (snd wB)) \<subseteq> set (invoked (snd wD))"
    using invoked_exec_subset [of wB' tb] invoked_exec_subset [of wC' tc]
      invoked_unshift [OF assms(4)] invoked_push [OF assms(6)] assms(5,7)
    by auto
  have fiD: "filter (\<lambda>e. pid e \<in> ?S) (invoked (snd wD)) = []"
  proof -
    have "\<forall>e \<in> set (invoked (snd wD)). pid e < pD"
      using idsOK_pid_bound [of wD] iD tD by (simp add: invariant_def)
    with assms(10) show ?thesis by (fastforce simp: filter_empty_conv)
  qed
  have fiB: "filter (\<lambda>e. pid e \<in> ?S) (invoked (snd wB)) = []"
    using fiD sub by (auto simp: filter_empty_conv)
  have "?F wA = []"
    using iA tA nB nC nD by (intro filter_none) (auto simp: invariant_def)
  with tA have FA': "?F wA' = [entryFor A pA]" by simp
  have "?F wB = ?F wA'"
    using tA tB nB nC nD by (intro filter_run [OF assms(3)]) auto
  with FA' fiB have "filter (\<lambda>e. pid e \<in> ?S) (promiseFunctionArray (fst wB)) = [entryFor A pA]"
    by simp
  with tB fiB have FB': "?F wB' = [entryFor B pB, entryFor A pA]" by simp
  have "?F wC = ?F wB'"
    using tB tC nB nC nD by (intro filter_run [OF assms(5)]) auto
  with FB' tC have FC': "?F wC' = [entryFor B pB, entryFor A pA, entryFor C pC]" by simp
  have "?F wD = ?F wC'"
    using tC tD nB nC nD by (intro filter_run [OF assms(7)]) auto
  with FC' fiD have "filter (\<lambda>e. pid e \<in> ?S) (promiseFunctionArray (fst wD)) =
      [entryFor B pB, entryFor A pA, entryFor C pC]" by simp
  with tD fiD have FD': "?F wD' = [entryFor D pD, entryFor B pB, entryFor A pA, entryFor C pC]"
    by simp
  have "?F w = ?F wD'"
    using tD nB nC nD nW by (intro filter_run [OF assms(9)]) auto
  with FD' show ?thesis by simp
qed

theorem mixed_submissions_run_D_B_A_C_witness:
  "push (1::nat) (exec [Unshift 0] (fresh 0)) =
     Inr (1, step (Push 1) (exec [Unshift 0] (fresh 0)))
   \<and> promiseFunctionArray
        (fst (exec [Unshift (0::nat), Push 1, Unshift 2, Push 3, Unshift 4] (fresh 0))) =
       [entryFor 4 4, entryFor 2 2, entryFor 0 0, entryFor 1 1, entryFor 3 3]
   \<and> invoked (snd (exec [Unshift (0::nat), Push 1, Unshift 2, Push 3] (fresh 0))) = []
   \<and> map fn (invoked (snd (exec
        [Unshift (0::nat), Push 1, Unshift 2, Push 3, Unshift 4,
         Fire 0, Fail 0 (Str ''fourth''), Fire 1, Succeed 1 (Str ''second''),
         Fire 2, Succeed 2 Undefined, Fire 3, Fail 3 (Str ''first''),
         Fire 4, Succeed 4 (Str ''third'')] (fresh 0)))) = [4, 2, 0, 1, 3]
   \<and> filter (\<lambda>e. pid e \<in> {1, 2, 3, 4}) (invoked (snd (exec
        [Unshift (0::nat), Push 1, Unshift 2, Push 3, Unshift 4,
         Fire 0, Fail 0 (Str ''fourth''), Fire 1, Succeed 1 (Str ''second''),
         Fire 2, Succeed 2 Undefined, Fire 3, Fail 3 (Str ''first''),
         Fire 4, Succeed 4 (Str ''third'')] (fresh 0)))) =
       [entryFor 4 4, entryFor 2 2, entryFor 1 1, entryFor 3 3]
   \<and> promiseFunctionArray (fst (exec
        [Unshift (0::nat), Push 1, Unshift 2, Push 3, Unshift 4,
         Fire 0, Fail 0 (Str ''fourth''), Fire 1, Succeed 1 (Str ''second''),
         Fire 2, Succeed 2 Undefined, Fire 3, Fail 3 (Str ''first''),
         Fire 4, Succeed 4 (Str ''third'')] (fresh 0))) = []"
  using mixed_submissions_run_D_B_A_C
    [of "exec [Unshift (0::nat)] (fresh 0)" "[Unshift (0::nat)]" 0
        "1::nat" 1 "exec [Unshift (0::nat), Push 1] (fresh 0)"
        "exec [Unshift (0::nat), Push 1] (fresh 0)" "[]"
        "2::nat" 2 "exec [Unshift (0::nat), Push 1, Unshift 2] (fresh 0)"
        "exec [Unshift (0::nat), Push 1, Unshift 2] (fresh 0)" "[]"
        "3::nat" 3 "exec [Unshift (0::nat), Push 1, Unshift 2, Push 3] (fresh 0)"
        "exec [Unshift (0::nat), Push 1, Unshift 2, Push 3] (fresh 0)" "[]"
        "4::nat" 4 "exec [Unshift (0::nat), Push 1, Unshift 2, Push 3, Unshift 4] (fresh 0)"
        "exec [Fire 0, Fail 0 (Str ''fourth''), Fire 1, Succeed 1 (Str ''second''),
               Fire 2, Succeed 2 Undefined, Fire 3, Fail 3 (Str ''first''),
               Fire 4, Succeed 4 (Str ''third'')]
           (exec [Unshift (0::nat), Push 1, Unshift 2, Push 3, Unshift 4] (fresh 0))"
        "[Fire 0, Fail 0 (Str ''fourth''), Fire 1, Succeed 1 (Str ''second''),
          Fire 2, Succeed 2 Undefined, Fire 3, Fail 3 (Str ''first''),
          Fire 4, Succeed 4 (Str ''third'')]"]
  by (simp add: run_simps)

text \<open>
  C2. In a run whose submissions are all made with \<open>push\<close> (any other events between
  them), at every moment: the units called so far, followed by the units still in the
  array, are the submitted units in submission order, so units are called first-in
  first-out; the promise at index \<open>p\<close> of the store is the one returned by submission
  number \<open>p\<close>, and entries are called in the order of these indices; and whenever an
  event calls a unit, every entry called before sits in a fulfilled link, which only a
  call of one of its two \<open>finishPromise\<close> functions brings about. The promises are
  settled in this order too as long as no unit has passed a thenable to a resolve
  function: then every promise is settled by its unit's report, before the next unit
  is called. A promise resolved with a thenable settles when the thenable does, while
  the chain moves on.
\<close>

theorem push_only_is_fifo:
  assumes "\<forall>ev \<in> set t. \<not> isUnshift ev" and "w = exec t (fresh P)"
  shows "map fn (invoked (snd w)) @ map fn (promiseFunctionArray (fst w)) = submitted (Some P) t
    \<and> map pid (invoked (snd w)) = [0 ..< length (invoked (snd w))]
    \<and> (invoked (snd (step ev w)) \<noteq> invoked (snd w) \<longrightarrow>
         take (length (invoked (snd w))) (globalPromise (fst w)) = map Done (invoked (snd w))
         \<and> invoked (snd (step ev w)) = invoked (snd w) @ [hd (promiseFunctionArray (fst w))])
    \<and> ((\<forall>ev \<in> set t. \<not> passesThenable ev) \<longrightarrow>
         settlements (snd w) = [0 ..< length (settlements (snd w))]
         \<and> length (settlements (snd w)) \<le> length (invoked (snd w))
         \<and> (invoked (snd (step ev w)) \<noteq> invoked (snd w) \<longrightarrow>
              length (settlements (snd w)) = length (invoked (snd w))))"
proof -
  have inv: "invariant w" using assms(2) invariant_reachable by simp
  have fns: "map fn (timeline w) = submitted (Some P) t"
    using pushes_fn [OF assms(1), of "fresh P"] assms(2)
    by (simp add: fresh_def loaded_def timeline_def)
  have "map pid (timeline w) = [0 ..< length (promises (snd w))]"
    using pushes_pid [OF assms(1), of "fresh P"] assms(2)
    by (simp add: fresh_def loaded_def timeline_def)
  then have "take (length (invoked (snd w))) (map pid (timeline w)) =
      take (length (invoked (snd w))) [0 ..< length (promises (snd w))]" by simp
  moreover have "length (invoked (snd w)) \<le> length (promises (snd w))"
    using \<open>map pid (timeline w) = [0 ..< length (promises (snd w))]\<close>
    by (metis length_map length_upt diff_zero timeline_def length_append le_add1)
  ultimately have pids: "map pid (invoked (snd w)) = [0 ..< length (invoked (snd w))]"
    by (simp add: timeline_def take_upt)
  have call: "invoked (snd (step ev w)) \<noteq> invoked (snd w) \<longrightarrow>
         take (length (invoked (snd w))) (globalPromise (fst w)) = map Done (invoked (snd w))
         \<and> invoked (snd (step ev w)) = invoked (snd w) @ [hd (promiseFunctionArray (fst w))]"
  proof
    assume ch: "invoked (snd (step ev w)) \<noteq> invoked (snd w)"
    from call_after_reports [OF inv ch]
    show "take (length (invoked (snd w))) (globalPromise (fst w)) = map Done (invoked (snd w))
         \<and> invoked (snd (step ev w)) = invoked (snd w) @ [hd (promiseFunctionArray (fst w))]"
      by blast
  qed
  have plain: "(\<forall>ev \<in> set t. \<not> passesThenable ev) \<longrightarrow>
         settlements (snd w) = [0 ..< length (settlements (snd w))]
         \<and> length (settlements (snd w)) \<le> length (invoked (snd w))
         \<and> (invoked (snd (step ev w)) \<noteq> invoked (snd w) \<longrightarrow>
              length (settlements (snd w)) = length (invoked (snd w)))"
  proof
    assume pl: "\<forall>ev \<in> set t. \<not> passesThenable ev"
    have td: "tidy w"
      unfolding assms(2) using invariant_fresh tidy_fresh pl by (rule tidy_exec)
    define n where "n = length (settlements (snd w))"
    have sp: "settlements (snd w) = take n (map pid (invoked (snd w)))"
      unfolding n_def using settlements_prefix [OF inv td] .
    have "length (settlements (snd w)) = min (length (invoked (snd w))) n"
      by (subst sp) simp
    then have sl: "n \<le> length (invoked (snd w))"
      by (simp add: n_def)
    have "settlements (snd w) = [0 ..< n]"
      by (subst sp) (simp add: pids take_upt sl)
    then have st: "settlements (snd w) = [0 ..< length (settlements (snd w))]"
      by (simp add: n_def)
    note sl = sl [unfolded n_def]
    have "invoked (snd (step ev w)) \<noteq> invoked (snd w) \<longrightarrow>
              length (settlements (snd w)) = length (invoked (snd w))"
    proof
      assume ch: "invoked (snd (step ev w)) \<noteq> invoked (snd w)"
      from call_after_reports [OF inv ch]
      have tk: "take (length (invoked (snd w))) (globalPromise (fst w)) =
          map Done (invoked (snd w))" by blast
      from all_settled [OF inv td tk]
      show "length (settlements (snd w)) = length (invoked (snd w))" .
    qed
    with st sl show "settlements (snd w) = [0 ..< length (settlements (snd w))]
         \<and> length (settlements (snd w)) \<le> length (invoked (snd w))
         \<and> (invoked (snd (step ev w)) \<noteq> invoked (snd w) \<longrightarrow>
              length (settlements (snd w)) = length (invoked (snd w)))"
      by (intro conjI)
  qed
  from fns have "map fn (invoked (snd w)) @ map fn (promiseFunctionArray (fst w)) =
      submitted (Some P) t" by (simp add: timeline_def)
  with pids call plain show ?thesis by (intro conjI)
qed

text \<open>
  The first unit passes a thenable to its success function: the chain moves on, the
  second unit is called and settles its promise, and the promise of the first unit
  settles after it, when the thenable does.
\<close>

theorem thenable_settles_after_later_unit:
  "map fn (invoked (snd (exec [Push (1::nat), Push 2, Fire 0, Succeed 0 (Thenable 0), Fire 1]
       (fresh 0)))) = [1, 2]
   \<and> map state (promises (snd (exec [Push (1::nat), Push 2, Fire 0, Succeed 0 (Thenable 0),
       Fire 1] (fresh 0)))) = [Following 0, Pending]
   \<and> settlements (snd (exec [Push (1::nat), Push 2, Fire 0, Succeed 0 (Thenable 0), Fire 1,
       Succeed 1 (Num 2), ThenResolve 0 (Num 1)] (fresh 0))) = [1, 0]
   \<and> map state (promises (snd (exec [Push (1::nat), Push 2, Fire 0, Succeed 0 (Thenable 0),
       Fire 1, Succeed 1 (Num 2), ThenResolve 0 (Num 1)] (fresh 0)))) =
       [Fulfilled (Num 1), Fulfilled (Num 2)]"
  by (simp add: run_simps)

theorem push_only_is_fifo_witness:
  "submitted (Some 0) [Push (1::nat), Push 2, Push 3, Fire 0, Succeed 0 (Num 10)] = [1, 2, 3]
   \<and> map fn (invoked (snd (exec [Push (1::nat), Push 2, Push 3, Fire 0, Succeed 0 (Num 10)]
                               (fresh 0)))) = [1]
   \<and> map fn (promiseFunctionArray (fst (exec [Push (1::nat), Push 2, Push 3, Fire 0,
                                               Succeed 0 (Num 10)] (fresh 0)))) = [2, 3]
   \<and> settlements (snd (exec [Push (1::nat), Push 2, Push 3, Fire 0, Succeed 0 (Num 10)]
                           (fresh 0))) = [0]
   \<and> map fn (invoked (snd (step (Fire 1)
         (exec [Push (1::nat), Push 2, Push 3, Fire 0, Succeed 0 (Num 10)] (fresh 0))))) = [1, 2]
   \<and> globalPromise (fst (exec [Push (1::nat), Push 2, Push 3, Fire 0, Succeed 0 (Num 10)]
                             (fresh 0))) = [Done (entryFor 1 0), Waiting, Waiting]"
  using push_only_is_fifo [of "[Push (1::nat), Push 2, Push 3, Fire 0, Succeed 0 (Num 10)]"
      "exec [Push (1::nat), Push 2, Push 3, Fire 0, Succeed 0 (Num 10)] (fresh 0)" 0 "Fire 1"]
  by (simp add: run_simps)

text \<open>
  C3. An entry submitted with \<open>unshift\<close> is called before every entry that was in the
  array at that moment: whenever such an earlier entry \<open>b\<close> has been called, the new
  entry was called before it. The promise index is the submission number, so \<open>b\<close> is
  the earlier submission. In a run whose submissions are all \<open>unshift\<close> the array
  lists the entries not yet called latest submission first, and the callback of a
  link always takes its head: last in, first out.
\<close>

theorem unshift_is_lifo:
  assumes "w1 = exec t1 (fresh P)" and "b \<in> set (promiseFunctionArray (fst w1))"
    and "unshift f w1 = Inr (p, w1')" and "w = exec t2 w1'"
  shows "pid b < p
    \<and> (\<forall>xs ys. invoked (snd w) = xs @ b # ys \<longrightarrow> entryFor f p \<in> set xs)
    \<and> ((\<forall>ev \<in> set t1 \<union> set t2. \<not> isPush ev) \<longrightarrow>
          sorted_wrt (>) (map pid (promiseFunctionArray (fst w))))"
proof (intro conjI allI impI)
  let ?a = "entryFor f p"
  from unshift_is_step [OF assms(3)]
  have w1': "w1' = step (Unshift f) w1" and p: "p = length (promises (snd w1))"
    and lp: "LocalPromise (snd w1) \<noteq> None" by simp_all
  have inv1: "invariant w1" using assms(1) invariant_reachable by simp
  then have ids1: "idsOK w1" by (simp add: invariant_def)
  have bt: "b \<in> set (timeline w1)" using assms(2) by (simp add: timeline_def)
  from idsOK_pid_bound [OF ids1 bt] p show pb: "pid b < p" by simp
  have d1: "distinct (map pid (timeline w1))" using ids1 by (simp add: idsOK_def)
  have tl1': "timeline w1' = invoked (snd w1) @ ?a # promiseFunctionArray (fst w1)"
    using lp p by (auto simp: w1' timeline_step)
  let ?Q = "\<lambda>q. q = p \<or> q = pid b"
  have "filter (\<lambda>e. pid e = pid b) (timeline w1) = [b]"
    using filter_pid_unique [OF d1 bt] .
  moreover have "\<forall>e \<in> set (timeline w1). pid e \<noteq> p"
    using idsOK_pid_bound [OF ids1] p by fastforce
  ultimately have fq: "filter (\<lambda>e. ?Q (pid e)) (timeline w1) = [b]"
    by (metis (mono_tags, lifting) filter_cong)
  have "filter (\<lambda>e. pid e = pid b) (promiseFunctionArray (fst w1)) = [b]"
    using filter_pid_unique [of "promiseFunctionArray (fst w1)" b] d1 assms(2)
    by (simp add: timeline_def)
  moreover have "\<forall>e \<in> set (promiseFunctionArray (fst w1)). pid e \<noteq> p"
    using \<open>\<forall>e \<in> set (timeline w1). pid e \<noteq> p\<close> by (simp add: timeline_def)
  ultimately have fa: "filter (\<lambda>e. ?Q (pid e)) (promiseFunctionArray (fst w1)) = [b]"
    by (metis (mono_tags, lifting) filter_cong)
  from fq fa have fi: "filter (\<lambda>e. ?Q (pid e)) (invoked (snd w1)) = []"
    by (simp add: timeline_def)
  have f1': "filter (\<lambda>e. ?Q (pid e)) (timeline w1') = [?a, b]"
    using fi fa by (simp add: tl1')
  have len1': "length (promises (snd w1')) = Suc p"
    using lp p by (auto simp: w1' length_promises_step)
  have "filter (\<lambda>e. ?Q (pid e)) (timeline w) = filter (\<lambda>e. ?Q (pid e)) (timeline w1')"
    unfolding assms(4)
    by (rule filter_timeline_exec) (use len1' pb in auto)
  with f1' have fw: "filter (\<lambda>e. ?Q (pid e)) (timeline w) = [?a, b]" by simp
  {
    fix xs ys assume iv: "invoked (snd w) = xs @ b # ys"
    with fw have "filter (\<lambda>e. ?Q (pid e)) xs @
        b # filter (\<lambda>e. ?Q (pid e)) (ys @ promiseFunctionArray (fst w)) = [?a, b]"
      by (simp add: timeline_def)
    moreover from pb have "?a \<noteq> b" by auto
    ultimately have "filter (\<lambda>e. ?Q (pid e)) xs = [?a]"
      by (rule before_in_pair)
    then have "?a \<in> set (filter (\<lambda>e. ?Q (pid e)) xs)" by simp
    then show "?a \<in> set xs" by simp
  }
  {
    assume np: "\<forall>ev \<in> set t1 \<union> set t2. \<not> isPush ev"
    have s1: "sorted_wrt (>) (map pid (promiseFunctionArray (fst w1)))
        \<and> (\<forall>e \<in> set (promiseFunctionArray (fst w1)). pid e < length (promises (snd w1)))"
      unfolding assms(1)
      by (rule array_exec_no_push) (use np in \<open>auto simp: fresh_def\<close>)
    have s1': "sorted_wrt (>) (map pid (promiseFunctionArray (fst w1')))
        \<and> (\<forall>e \<in> set (promiseFunctionArray (fst w1')). pid e < length (promises (snd w1')))"
      unfolding w1' using s1 by (intro array_step_no_push) simp_all
    have "sorted_wrt (>) (map pid (promiseFunctionArray (fst w)))
        \<and> (\<forall>e \<in> set (promiseFunctionArray (fst w)). pid e < length (promises (snd w)))"
      unfolding assms(4) using s1' np by (intro array_exec_no_push) simp_all
    then show "sorted_wrt (>) (map pid (promiseFunctionArray (fst w)))" by simp
  }
qed

theorem unshift_is_lifo_witness:
  "entryFor (1::nat) 0 \<in> set (promiseFunctionArray (fst (exec [Unshift 1, Unshift 2] (fresh 0))))
   \<and> unshift (3::nat) (exec [Unshift 1, Unshift 2] (fresh 0)) =
       Inr (2, step (Unshift 3) (exec [Unshift 1, Unshift 2] (fresh 0)))
   \<and> promiseFunctionArray (fst (step (Unshift (3::nat)) (exec [Unshift 1, Unshift 2] (fresh 0)))) =
       [entryFor 3 2, entryFor 2 1, entryFor 1 0]
   \<and> invoked (snd (exec [Fire 0, Succeed 0 (Str ''third''), Fire 1, Fail 1 (Str ''second''),
                           Fire 2, Succeed 2 (Str ''first'')]
        (step (Unshift (3::nat)) (exec [Unshift 1, Unshift 2] (fresh 0))))) =
       [entryFor 3 2, entryFor 2 1] @ entryFor 1 0 # []
   \<and> entryFor (3::nat) 2 \<in> set [entryFor 3 2, entryFor 2 1]
   \<and> pid (entryFor (1::nat) 0) < 2"
  using unshift_is_lifo [of "exec [Unshift (1::nat), Unshift 2] (fresh 0)"
      "[Unshift (1::nat), Unshift 2]" 0 "entryFor 1 0" 3 2
      "step (Unshift 3) (exec [Unshift (1::nat), Unshift 2] (fresh 0))"
      "exec [Fire 0, Succeed 0 (Str ''third''), Fire 1, Fail 1 (Str ''second''),
             Fire 2, Succeed 2 (Str ''first'')]
        (step (Unshift (3::nat)) (exec [Unshift 1, Unshift 2] (fresh 0)))"
      "[Fire 0, Succeed 0 (Str ''third''), Fire 1, Fail 1 (Str ''second''),
        Fire 2, Succeed 2 (Str ''first'')]"]
  by (simp add: run_simps)

text \<open>
  C8. A call of \<open>push\<close> or \<open>unshift\<close> that returns a promise has put one entry into the
  array (at the tail or at the head), added one pending link to the chain and one
  pending promise to the store, and nothing else: no unit was called and no promise
  settled. In every state a queue can reach, an event that calls a unit is the callback
  of a link firing; it calls the entry at the head of the array, and at that moment
  every entry called before has had one of its \<open>finishPromise\<close> functions called: it
  sits in a fulfilled link.
\<close>

theorem submission_never_calls_the_unit:
  "(push f (self, m) = Inr (p, self', m') \<longrightarrow>
      invoked m' = invoked m \<and> settlements m' = settlements m
      \<and> LocalPromise m' = LocalPromise m
      \<and> promiseFunctionArray self' = promiseFunctionArray self @ [entryFor f p]
      \<and> globalPromise self' = globalPromise self @ [Waiting]
      \<and> p = length (promises m) \<and> take p (promises m') = promises m
      \<and> length (promises m') = Suc p \<and> state (promises m' ! p) = Pending)
   \<and> (unshift f (self, m) = Inr (p, self', m') \<longrightarrow>
      invoked m' = invoked m \<and> settlements m' = settlements m
      \<and> LocalPromise m' = LocalPromise m
      \<and> promiseFunctionArray self' = entryFor f p # promiseFunctionArray self
      \<and> globalPromise self' = globalPromise self @ [Waiting]
      \<and> p = length (promises m) \<and> take p (promises m') = promises m
      \<and> length (promises m') = Suc p \<and> state (promises m' ! p) = Pending)
   \<and> (w = exec t (fresh P) \<and> invoked (snd (step ev w)) \<noteq> invoked (snd w) \<longrightarrow>
      ev = Fire (length (invoked (snd w)))
      \<and> promiseFunctionArray (fst w) \<noteq> []
      \<and> invoked (snd (step ev w)) = invoked (snd w) @ [hd (promiseFunctionArray (fst w))]
      \<and> take (length (invoked (snd w))) (globalPromise (fst w)) = map Done (invoked (snd w)))"
proof (intro conjI impI)
  assume "w = exec t (fresh P) \<and> invoked (snd (step ev w)) \<noteq> invoked (snd w)"
  then have inv: "invariant w" and ch: "invoked (snd (step ev w)) \<noteq> invoked (snd w)"
    using invariant_reachable by auto
  note c = call_after_reports [OF inv ch]
  from c show "ev = Fire (length (invoked (snd w)))" by blast
  from c show "promiseFunctionArray (fst w) \<noteq> []" by blast
  from c show "invoked (snd (step ev w)) = invoked (snd w) @ [hd (promiseFunctionArray (fst w))]"
    by blast
  from c show "take (length (invoked (snd w))) (globalPromise (fst w)) =
      map Done (invoked (snd w))" by blast
qed (cases "LocalPromise m"; simp add: push_None push_Some' unshift_None unshift_Some'; fastforce)+

theorem submission_never_calls_the_unit_witness:
  "push (7::nat) (\<lparr>globalPromise = [], promiseFunctionArray = []\<rparr>, loaded (Some 0)) =
     Inr (0, \<lparr>globalPromise = [Waiting], promiseFunctionArray = [entryFor 7 0]\<rparr>,
          \<lparr>LocalPromise = Some 0, promises = [\<lparr>maker = 0, state = Pending\<rparr>],
             invoked = [], settlements = []\<rparr>)
   \<and> unshift (8::nat) (\<lparr>globalPromise = [Waiting], promiseFunctionArray = [entryFor 7 0]\<rparr>,
          \<lparr>LocalPromise = Some 0, promises = [\<lparr>maker = 0, state = Pending\<rparr>],
             invoked = [], settlements = []\<rparr>) =
     Inr (1, \<lparr>globalPromise = [Waiting, Waiting],
              promiseFunctionArray = [entryFor 8 1, entryFor 7 0]\<rparr>,
          \<lparr>LocalPromise = Some 0,
             promises = [\<lparr>maker = 0, state = Pending\<rparr>, \<lparr>maker = 0, state = Pending\<rparr>],
             invoked = [], settlements = []\<rparr>)
   \<and> invoked (snd (exec [Push (7::nat), Unshift 8, Fire 0, Fail 0 (Str ''no'')] (fresh 0))) =
       [entryFor 8 1]
   \<and> invoked (snd (step (Fire 1)
         (exec [Push (7::nat), Unshift 8, Fire 0, Fail 0 (Str ''no'')] (fresh 0)))) =
       [entryFor 8 1, entryFor 7 0]
   \<and> globalPromise (fst (exec [Push (7::nat), Unshift 8, Fire 0, Fail 0 (Str ''no'')]
         (fresh 0))) = [Done (entryFor 8 1), Waiting]
   \<and> state (promises (snd (exec [Push (7::nat), Unshift 8, Fire 0, Fail 0 (Str ''no'')]
         (fresh 0))) ! 1) = Rejected (Str ''no'')"
  using submission_never_calls_the_unit
     [of 7 "\<lparr>globalPromise = [], promiseFunctionArray = []\<rparr>" "loaded (Some 0)" 0
         "\<lparr>globalPromise = [Waiting], promiseFunctionArray = [entryFor 7 0]\<rparr>"
         "\<lparr>LocalPromise = Some 0, promises = [\<lparr>maker = 0, state = Pending\<rparr>],
             invoked = [], settlements = []\<rparr>"
         "exec [Push (7::nat), Unshift 8, Fire 0, Fail 0 (Str ''no'')] (fresh 0)"
         "[Push (7::nat), Unshift 8, Fire 0, Fail 0 (Str ''no'')]" 0 "Fire 1"]
    submission_never_calls_the_unit
     [of 8 "\<lparr>globalPromise = [Waiting], promiseFunctionArray = [entryFor 7 0]\<rparr>"
         "\<lparr>LocalPromise = Some 0, promises = [\<lparr>maker = 0, state = Pending\<rparr>],
             invoked = [], settlements = []\<rparr>" 1
         "\<lparr>globalPromise = [Waiting, Waiting],
              promiseFunctionArray = [entryFor 8 1, entryFor 7 0]\<rparr>"
         "\<lparr>LocalPromise = Some 0,
             promises = [\<lparr>maker = 0, state = Pending\<rparr>, \<lparr>maker = 0, state = Pending\<rparr>],
             invoked = [], settlements = []\<rparr>"]
  by (simp add: run_simps)

section \<open>Outcomes: the promise of a unit, and a failure\<close>

text \<open>
  C4. Let the unit called by link \<open>k\<close> call its failure function where it could have
  called its success function. The call touches no promise but the unit's own, which it
  rejects with the value passed for good if neither of the promise's functions was
  called before, and it fulfils the link just as a success would. From then on the two
  runs go through the same events in the same way: the chain, the array and the order
  of calls are equal at every later moment, and so is every promise but the unit's own.
\<close>

theorem failure_stays_local:
  assumes "w1 = exec t1 (fresh P)" and "linkEntry k (fst w1) = Some e"
    and "wF = exec t2 (step (Fail k v) w1)" and "wS = exec t2 (step (Succeed k v') w1)"
  shows "fst wF = fst wS
    \<and> invoked (snd wF) = invoked (snd wS)
    \<and> LocalPromise (snd wF) = LocalPromise (snd wS)
    \<and> length (promises (snd wF)) = length (promises (snd wS))
    \<and> (\<forall>q < length (promises (snd wF)). q \<noteq> pid e \<longrightarrow>
          promises (snd wF) ! q = promises (snd wS) ! q)
    \<and> (\<forall>q < length (promises (snd w1)). q \<noteq> pid e \<longrightarrow>
          promises (snd (step (Fail k v) w1)) ! q = promises (snd w1) ! q)
    \<and> fst (step (Fail k v) w1) = fst (step (Succeed k v') w1)
    \<and> (globalPromise (fst w1) ! k = Running e \<longrightarrow>
          globalPromise (fst (step (Fail k v) w1)) = (globalPromise (fst w1))[k := Done e])
    \<and> (state (promises (snd w1) ! pid e) = Pending \<longrightarrow>
          state (promises (snd wF) ! pid e) = Rejected v)"
proof -
  obtain self m where w1: "w1 = (self, m)" by (cases w1)
  have inv: "invariant w1" using assms(1) invariant_reachable by simp
  with w1 have ch: "chainOK (self, m)" and ids: "idsOK (self, m)"
    by (simp_all add: invariant_def)
  from assms(2) w1 have le: "linkEntry k self = Some e" by simp
  have sf: "step (Fail k v) w1 = (globalResolve k self, settle (pid e) (Rejected v) m)"
    and ss: "step (Succeed k v') w1 = (globalResolve k self, settle (pid e) (resolution v') m)"
    using step_report [OF ch ids le] w1 by simp_all
  note pb = called_entry(1) [OF ch ids le]
  have al: "alike (pid e) wF wS"
    unfolding assms(3,4) sf ss
    by (intro alike_exec alike_reports pb) simp_all
  have own: "\<forall>q < length (promises (snd w1)). q \<noteq> pid e \<longrightarrow>
          promises (snd (step (Fail k v) w1)) ! q = promises (snd w1) ! q"
    unfolding sf by (simp add: w1 settle_def put_def)
  have run: "globalPromise (fst w1) ! k = Running e \<longrightarrow>
          globalPromise (fst (step (Fail k v) w1)) = (globalPromise (fst w1))[k := Done e]"
  proof
    assume r: "globalPromise (fst w1) ! k = Running e"
    from le have k: "k < length (globalPromise self)"
      by (simp add: linkEntry_def split: if_splits)
    show "globalPromise (fst (step (Fail k v) w1)) = (globalPromise (fst w1))[k := Done e]"
      unfolding sf using r k by (simp add: w1 globalResolve_def)
  qed
  have rej: "state (promises (snd w1) ! pid e) = Pending \<longrightarrow>
          state (promises (snd wF) ! pid e) = Rejected v"
  proof
    assume "state (promises (snd w1) ! pid e) = Pending"
    with w1 have pend: "state (promises m ! pid e) = Pending" by simp
    have f0: "state (promises (snd (step (Fail k v) w1)) ! pid e) = Rejected v"
      unfolding sf using pend pb by (simp add: state_settle)
    show "state (promises (snd wF) ! pid e) = Rejected v"
      unfolding assms(3)
      using settled_stays [OF invariant_step [OF inv, of "Fail k v"], of "pid e" t2] f0 pb
      unfolding sf by simp
  qed
  have same: "fst (step (Fail k v) w1) = fst (step (Succeed k v') w1)"
    unfolding sf ss by simp
  from al own run rej same show ?thesis unfolding alike_def by blast
qed

theorem failure_stays_local_witness:
  "linkEntry 0 (fst (exec [Push (1::nat), Push 2, Unshift 3, Fire 0] (fresh 0))) =
     Some (entryFor 3 2)
   \<and> globalPromise (fst (exec [Push (1::nat), Push 2, Unshift 3, Fire 0] (fresh 0))) ! 0 =
     Running (entryFor 3 2)
   \<and> state (promises (snd (exec [Push (1::nat), Push 2, Unshift 3, Fire 0] (fresh 0))) ! 2) =
     Pending
   \<and> fst (exec [Fire 1, Succeed 1 (Num 7), Fire 2]
        (step (Fail 0 (Str ''no'')) (exec [Push (1::nat), Push 2, Unshift 3, Fire 0] (fresh 0)))) =
     \<lparr>globalPromise = [Done (entryFor 3 2), Done (entryFor 1 0), Running (entryFor 2 1)],
      promiseFunctionArray = []\<rparr>
   \<and> fst (exec [Fire 1, Succeed 1 (Num 7), Fire 2]
        (step (Succeed 0 (Num 5)) (exec [Push (1::nat), Push 2, Unshift 3, Fire 0] (fresh 0)))) =
     \<lparr>globalPromise = [Done (entryFor 3 2), Done (entryFor 1 0), Running (entryFor 2 1)],
      promiseFunctionArray = []\<rparr>
   \<and> map state (promises (snd (exec [Fire 1, Succeed 1 (Num 7), Fire 2]
        (step (Fail 0 (Str ''no'')) (exec [Push (1::nat), Push 2, Unshift 3, Fire 0] (fresh 0)))))) =
     [Fulfilled (Num 7), Pending, Rejected (Str ''no'')]
   \<and> map state (promises (snd (exec [Fire 1, Succeed 1 (Num 7), Fire 2]
        (step (Succeed 0 (Num 5)) (exec [Push (1::nat), Push 2, Unshift 3, Fire 0] (fresh 0)))))) =
     [Fulfilled (Num 7), Pending, Fulfilled (Num 5)]"
  using failure_stays_local [of "exec [Push (1::nat), Push 2, Unshift 3, Fire 0] (fresh 0)"
      "[Push (1::nat), Push 2, Unshift 3, Fire 0]" 0 0 "entryFor 3 2"
      "exec [Fire 1, Succeed 1 (Num 7), Fire 2]
        (step (Fail 0 (Str ''no'')) (exec [Push (1::nat), Push 2, Unshift 3, Fire 0] (fresh 0)))"
      "[Fire 1, Succeed 1 (Num 7), Fire 2]" "Str ''no''"
      "exec [Fire 1, Succeed 1 (Num 7), Fire 2]
        (step (Succeed 0 (Num 5)) (exec [Push (1::nat), Push 2, Unshift 3, Fire 0] (fresh 0)))"
      "Num 5"]
  by (simp add: run_simps)

text \<open>
  C5. The promise that \<open>push\<close> or \<open>unshift\<close> returns is the one whose resolve and reject
  functions the new entry carries, and it starts pending. In every state a queue can
  reach, an event changes the state of a promise of the store in two cases only.
  \<^item> A report: the unit that a link has called calls one of the two functions it was
    handed, or one of the two functions of its entry; the promise is the one of that
    unit's entry, and no function of it was called before. A failure rejects it with the
    value passed. A success fulfils it with the value passed unless this is a thenable,
    which the promise then follows, still pending.
  \<^item> An adoption: the thenable that the promise follows calls one of the two functions
    its \<open>then\<close> was given, which settles the promise, or makes it follow another thenable.

  No link firing, no submission, no exception and no report or thenable of another
  promise changes it; a settled promise stays as it is; and no two links hold entries of
  the same promise.
\<close>

theorem promise_follows_own_report:
  assumes "w = exec t (fresh P)" and "q < length (promises (snd w))"
  shows "state (promises (snd (step ev w)) ! q) =
      (case reportOf ev (fst w) of
         Some (q', s) \<Rightarrow> if q' = q \<and> state (promises (snd w) ! q) = Pending then s
                         else state (promises (snd w) ! q)
       | None \<Rightarrow>
           (case adoptOf ev of
              Some (q', s) \<Rightarrow> if q' = q \<and> following (state (promises (snd w) ! q)) then s
                              else state (promises (snd w) ! q)
            | None \<Rightarrow> state (promises (snd w) ! q)))
    \<and> maker (promises (snd (step ev w)) ! q) = maker (promises (snd w) ! q)
    \<and> (state (promises (snd w) ! q) \<noteq> Pending \<and> \<not> following (state (promises (snd w) ! q)) \<longrightarrow>
          state (promises (snd (exec t' w)) ! q) = state (promises (snd w) ! q))
    \<and> (\<forall>k e. linkEntry k (fst w) = Some e \<longrightarrow>
          localResolve e = ResolveOf (pid e) \<and> localReject e = RejectOf (pid e)
          \<and> pid e < length (promises (snd w)))
    \<and> (\<forall>j k e e'. linkEntry j (fst w) = Some e \<and> linkEntry k (fst w) = Some e'
          \<and> pid e = pid e' \<longrightarrow> j = k)
    \<and> (\<forall>e \<in> set (promiseFunctionArray (fst w)). state (promises (snd w) ! pid e) = Pending)
    \<and> (push f w = Inr (p, w') \<longrightarrow>
          p = length (promises (snd w)) \<and> state (promises (snd w') ! p) = Pending
          \<and> promiseFunctionArray (fst w') = promiseFunctionArray (fst w) @ [entryFor f p])
    \<and> (unshift f w = Inr (p, w') \<longrightarrow>
          p = length (promises (snd w)) \<and> state (promises (snd w') ! p) = Pending
          \<and> promiseFunctionArray (fst w') = entryFor f p # promiseFunctionArray (fst w))"
proof -
  have inv: "invariant w" using assms(1) invariant_reachable by simp
  then have ch: "chainOK w" and ids: "idsOK w" and st: "statesOK w"
    by (simp_all add: invariant_def)
  note promise_step [OF inv assms(2), of ev]
  moreover have "state (promises (snd w) ! q) \<noteq> Pending
        \<and> \<not> following (state (promises (snd w) ! q)) \<longrightarrow>
          state (promises (snd (exec t' w)) ! q) = state (promises (snd w) ! q)"
    using settled_stays [OF inv assms(2), of t'] by blast
  moreover have "\<forall>k e. linkEntry k (fst w) = Some e \<longrightarrow>
          localResolve e = ResolveOf (pid e) \<and> localReject e = RejectOf (pid e)
          \<and> pid e < length (promises (snd w))"
  proof (intro allI impI)
    fix k e assume le: "linkEntry k (fst w) = Some e"
    from wf_link_entry [OF ch ids le] have "wfEntry e" .
    moreover from chainOK_entry_invoked [OF ch le] have "e \<in> set (timeline w)"
      by (simp add: timeline_def)
    ultimately show "localResolve e = ResolveOf (pid e) \<and> localReject e = RejectOf (pid e)
          \<and> pid e < length (promises (snd w))"
      using idsOK_pid_bound [OF ids] by (simp add: wfEntry_def)
  qed
  moreover have "\<forall>j k e e'. linkEntry j (fst w) = Some e \<and> linkEntry k (fst w) = Some e'
          \<and> pid e = pid e' \<longrightarrow> j = k"
  proof (intro allI impI)
    fix j k e e'
    assume a: "linkEntry j (fst w) = Some e \<and> linkEntry k (fst w) = Some e' \<and> pid e = pid e'"
    show "j = k"
    proof (rule ccontr)
      assume "j \<noteq> k"
      then consider "j < k" | "k < j" by linarith
      then show False
      proof cases
        case 1
        from link_pids_differ [OF ch ids 1] a show False by blast
      next
        case 2
        from link_pids_differ [OF ch ids 2] a show False by metis
      qed
    qed
  qed
  moreover have "\<forall>e \<in> set (promiseFunctionArray (fst w)). state (promises (snd w) ! pid e) = Pending"
    using st by (simp add: statesOK_def)
  moreover have "push f w = Inr (p, w') \<longrightarrow>
          p = length (promises (snd w)) \<and> state (promises (snd w') ! p) = Pending
          \<and> promiseFunctionArray (fst w') = promiseFunctionArray (fst w) @ [entryFor f p]"
    by (cases w; cases "LocalPromise (snd w)") (auto simp: push_None push_Some')
  moreover have "unshift f w = Inr (p, w') \<longrightarrow>
          p = length (promises (snd w)) \<and> state (promises (snd w') ! p) = Pending
          \<and> promiseFunctionArray (fst w') = entryFor f p # promiseFunctionArray (fst w)"
    by (cases w; cases "LocalPromise (snd w)") (auto simp: unshift_None unshift_Some')
  ultimately show ?thesis by (intro conjI)
qed

text \<open>
  A unit passes a thenable to its success function and the thenable rejects: the
  promise is rejected, with the thenable's value. A unit calls the resolve function of
  its entry and then its success function: the promise keeps the first value.
\<close>

theorem thenable_decides_the_promise:
  "state (promises (snd (exec [Push (1::nat), Fire 0, Succeed 0 (Thenable 0)] (fresh 0))) ! 0) =
     Following 0
   \<and> state (promises (snd (exec [Push (1::nat), Fire 0, Succeed 0 (Thenable 0),
        ThenReject 0 (Str ''inner'')] (fresh 0))) ! 0) = Rejected (Str ''inner'')
   \<and> state (promises (snd (exec [Push (1::nat), Fire 0, OwnResolve 0 (Num 5),
        Succeed 0 (Num 6)] (fresh 0))) ! 0) = Fulfilled (Num 5)"
  by (simp add: run_simps)

theorem promise_follows_own_report_witness:
  "reportOf (Fail 0 (Num 100)) (fst (exec [Push (1::nat), Unshift 2, Fire 0] (fresh 0))) =
     Some (1, Rejected (Num 100))
   \<and> map state (promises (snd (exec [Push (1::nat), Unshift 2, Fire 0] (fresh 0)))) =
     [Pending, Pending]
   \<and> map state (promises (snd (step (Fail 0 (Num 100))
        (exec [Push (1::nat), Unshift 2, Fire 0] (fresh 0))))) = [Pending, Rejected (Num 100)]
   \<and> map state (promises (snd (step (Succeed 0 (Num 10))
        (exec [Push (1::nat), Unshift 2, Fire 0, Fail 0 (Num 100)] (fresh 0))))) =
     [Pending, Rejected (Num 100)]
   \<and> map state (promises (snd (step (ThenResolve 1 (Num 3))
        (exec [Push (1::nat), Unshift 2, Fire 0, Succeed 0 (Thenable 7)] (fresh 0))))) =
     [Pending, Fulfilled (Num 3)]
   \<and> map state (promises (snd (step (OwnReject 0 (Str ''own''))
        (exec [Push (1::nat), Unshift 2, Fire 0] (fresh 0))))) = [Pending, Rejected (Str ''own'')]
   \<and> push (3::nat) (exec [Push 1, Unshift 2, Fire 0] (fresh 0)) =
     Inr (2, step (Push 3) (exec [Push 1, Unshift 2, Fire 0] (fresh 0)))
   \<and> linkEntry 0 (fst (exec [Push (1::nat), Unshift 2, Fire 0] (fresh 0))) = Some (entryFor 2 1)"
  using promise_follows_own_report [of "exec [Push (1::nat), Unshift 2, Fire 0] (fresh 0)"
      "[Push (1::nat), Unshift 2, Fire 0]" 0 1 "Fail 0 (Num 100)" "[]" 3 2
      "step (Push 3) (exec [Push (1::nat), Unshift 2, Fire 0] (fresh 0))", THEN conjunct1]
    promise_follows_own_report
     [of "exec [Push (1::nat), Unshift 2, Fire 0, Fail 0 (Num 100)] (fresh 0)"
      "[Push (1::nat), Unshift 2, Fire 0, Fail 0 (Num 100)]" 0 1 "Succeed 0 (Num 10)",
      THEN conjunct1]
    promise_follows_own_report
     [of "exec [Push (1::nat), Unshift 2, Fire 0, Succeed 0 (Thenable 7)] (fresh 0)"
      "[Push (1::nat), Unshift 2, Fire 0, Succeed 0 (Thenable 7)]" 0 1 "ThenResolve 1 (Num 3)",
      THEN conjunct1]
    promise_follows_own_report [of "exec [Push (1::nat), Unshift 2, Fire 0] (fresh 0)"
      "[Push (1::nat), Unshift 2, Fire 0]" 0 1 "OwnReject 0 (Str ''own'')", THEN conjunct1]
  by (simp add: run_simps)

section \<open>Every entry has a link that calls it\<close>

text \<open>
  C9. In every state a queue can reach, the chain has one link for each accepted
  submission, and the links whose callback has not run are as many as the entries in
  the array: a callback that runs finds an entry to shift. An entry is never called
  twice, never both called and pending, and every promise handed out belongs to an
  entry that is either called or pending. Every pending entry is called once the
  units before it have reported: with an implementation configured and no link
  rejected, letting each link fire and its unit report, in turn, calls all pending
  entries in array order and empties the array. While the unit called by a link reports
  nothing, no further unit is called, whatever else happens.
\<close>

theorem every_entry_has_its_step:
  assumes "w = exec t (fresh P)"
  shows "length (globalPromise (fst w)) = length (submitted (Some P) t)
    \<and> length (promises (snd w)) = length (submitted (Some P) t)
    \<and> length (globalPromise (fst w)) =
        length (invoked (snd w)) + length (promiseFunctionArray (fst w))
    \<and> unfired (globalPromise (fst w)) = length (promiseFunctionArray (fst w))
    \<and> (k < length (globalPromise (fst w)) \<and> globalPromise (fst w) ! k = Waiting \<longrightarrow>
          promiseFunctionArray (fst w) \<noteq> [])
    \<and> distinct (invoked (snd w) @ promiseFunctionArray (fst w))
    \<and> pid ` set (invoked (snd w) @ promiseFunctionArray (fst w)) = {..<length (promises (snd w))}
    \<and> (LocalPromise (snd w) \<noteq> None \<and> (\<forall>l \<in> set (globalPromise (fst w)). \<not> isFailed l)
        \<and> w' = exec (sweep out (length (globalPromise (fst w)))) w \<longrightarrow>
          promiseFunctionArray (fst w') = []
          \<and> invoked (snd w') = invoked (snd w) @ promiseFunctionArray (fst w)
          \<and> globalPromise (fst w') = map Done (invoked (snd w) @ promiseFunctionArray (fst w)))
    \<and> (j < length (globalPromise (fst w)) \<and> globalPromise (fst w) ! j = Running e
        \<and> (\<forall>ev \<in> set t'. \<not> reportsOf j ev) \<longrightarrow>
          invoked (snd (exec t' w)) = invoked (snd w))"
proof -
  let ?c = "globalPromise (fst w)" and ?arr = "promiseFunctionArray (fst w)"
  have inv: "invariant w" using assms invariant_reachable by simp
  then have ch: "chainOK w" and ids: "idsOK w" by (simp_all add: invariant_def)
  have np: "length (promises (snd w)) = length (submitted (Some P) t)"
    using length_promises_submitted [of t "fresh P"] assms by (simp add: fresh_def loaded_def)
  have un: "unfired ?c = length ?arr" using ch by (simp add: chainOK_def)
  have lc: "length ?c = length (invoked (snd w)) + length ?arr"
    using length_chain_popped [of ?c] ch by (simp add: chainOK_def)
  have "length (timeline w) = length (promises (snd w))" using length_timeline [OF ids] .
  with lc np have nc: "length ?c = length (submitted (Some P) t)" by (simp add: timeline_def)
  have ne: "k < length ?c \<and> ?c ! k = Waiting \<longrightarrow> ?arr \<noteq> []"
  proof
    assume "k < length ?c \<and> ?c ! k = Waiting"
    then have "0 < unfired ?c" using unfired_pos [of k ?c] by simp
    with un show "?arr \<noteq> []" by auto
  qed
  have di: "distinct (invoked (snd w) @ ?arr)"
    using ids distinct_map [of pid "timeline w"] by (simp add: idsOK_def timeline_def)
  have al: "pid ` set (invoked (snd w) @ ?arr) = {..<length (promises (snd w))}"
    using ids by (simp add: idsOK_def timeline_def image_Un)
  have lv: "LocalPromise (snd w) \<noteq> None \<and> (\<forall>l \<in> set ?c. \<not> isFailed l)
        \<and> w' = exec (sweep out (length ?c)) w \<longrightarrow>
          promiseFunctionArray (fst w') = []
          \<and> invoked (snd w') = invoked (snd w) @ ?arr
          \<and> globalPromise (fst w') = map Done (invoked (snd w) @ ?arr)"
  proof
    assume a: "LocalPromise (snd w) \<noteq> None \<and> (\<forall>l \<in> set ?c. \<not> isFailed l)
        \<and> w' = exec (sweep out (length ?c)) w"
    then have "healthy w 0" by (simp add: healthy_def)
    from sweep_drains [OF inv this, of w' out] a
    show "promiseFunctionArray (fst w') = []
          \<and> invoked (snd w') = invoked (snd w) @ ?arr
          \<and> globalPromise (fst w') = map Done (invoked (snd w) @ ?arr)" by simp
  qed
  have sl: "j < length ?c \<and> ?c ! j = Running e \<and> (\<forall>ev \<in> set t'. \<not> reportsOf j ev) \<longrightarrow>
          invoked (snd (exec t' w)) = invoked (snd w)"
  proof
    assume a: "j < length ?c \<and> ?c ! j = Running e \<and> (\<forall>ev \<in> set t'. \<not> reportsOf j ev)"
    then show "invoked (snd (exec t' w)) = invoked (snd w)"
      by (intro stalled [OF inv, of j t']) simp_all
  qed
  from nc np lc un ne di al lv sl show ?thesis by (intro conjI)
qed

text \<open>
  Without a report there is no progress: after \<open>push\<close> of unit 1, \<open>push\<close> of unit 2 and
  the first callback, which calls unit 1, no run in which unit 1 calls neither of its
  functions ever calls unit 2.
\<close>

theorem stalled_unit_blocks_later_entries:
  "\<not> (\<exists>t. (\<forall>ev \<in> set t. \<not> reportsOf 0 ev)
          \<and> entryFor (2::nat) 1 \<in>
              set (invoked (snd (exec ([Push 1, Push 2, Fire 0] @ t) (fresh 0)))))"
proof
  assume "\<exists>t. (\<forall>ev \<in> set t. \<not> reportsOf 0 ev)
          \<and> entryFor (2::nat) 1 \<in>
              set (invoked (snd (exec ([Push 1, Push 2, Fire 0] @ t) (fresh 0))))"
  then obtain t where nr: "\<forall>ev \<in> set t. \<not> reportsOf 0 ev"
    and c: "entryFor (2::nat) 1 \<in>
              set (invoked (snd (exec ([Push 1, Push 2, Fire 0] @ t) (fresh 0))))" by blast
  let ?w = "exec [Push (1::nat), Push 2, Fire 0] (fresh 0)"
  have w: "?w = (\<lparr>globalPromise = [Running (entryFor 1 0), Waiting],
                   promiseFunctionArray = [entryFor 2 1]\<rparr>,
                 \<lparr>LocalPromise = Some 0,
                    promises = [\<lparr>maker = 0, state = Pending\<rparr>, \<lparr>maker = 0, state = Pending\<rparr>],
                    invoked = [entryFor 1 0], settlements = []\<rparr>)"
    by (simp add: run_simps)
  have iw: "invariant ?w" by (rule invariant_reachable)
  have "invoked (snd (exec t ?w)) = invoked (snd ?w)"
    using iw unfolding w by (rule stalled [OF _ _ _ _ nr]) simp_all
  moreover have "exec ([Push (1::nat), Push 2, Fire 0] @ t) (fresh 0) = exec t ?w"
    by (rule exec_append)
  ultimately have "invoked (snd (exec ([Push (1::nat), Push 2, Fire 0] @ t) (fresh 0))) =
      [entryFor 1 0]" unfolding w by simp
  with c show False by (simp add: entryFor_def)
qed

theorem every_entry_has_its_step_witness:
  "submitted (Some 0) [Push (1::nat), Unshift 2, Push 3, Fire 0] = [1, 2, 3]
   \<and> globalPromise (fst (exec [Push (1::nat), Unshift 2, Push 3, Fire 0] (fresh 0))) =
       [Running (entryFor 2 1), Waiting, Waiting]
   \<and> promiseFunctionArray (fst (exec [Push (1::nat), Unshift 2, Push 3, Fire 0] (fresh 0))) =
       [entryFor 1 0, entryFor 3 2]
   \<and> invoked (snd (exec [Push (1::nat), Unshift 2, Push 3, Fire 0] (fresh 0))) =
       [entryFor 2 1]
   \<and> LocalPromise (snd (exec [Push (1::nat), Unshift 2, Push 3, Fire 0] (fresh 0))) = Some 0
   \<and> promiseFunctionArray (fst (exec (sweep (\<lambda>k. (k \<noteq> 1, Num (int k))) 3)
        (exec [Push (1::nat), Unshift 2, Push 3, Fire 0] (fresh 0)))) = []
   \<and> invoked (snd (exec (sweep (\<lambda>k. (k \<noteq> 1, Num (int k))) 3)
        (exec [Push (1::nat), Unshift 2, Push 3, Fire 0] (fresh 0)))) =
       [entryFor 2 1, entryFor 1 0, entryFor 3 2]
   \<and> map state (promises (snd (exec (sweep (\<lambda>k. (k \<noteq> 1, Num (int k))) 3)
        (exec [Push (1::nat), Unshift 2, Push 3, Fire 0] (fresh 0))))) =
       [Rejected (Num 1), Fulfilled (Num 0), Fulfilled (Num 2)]
   \<and> invoked (snd (exec [Fire 1, Push 4, Throw 1, Fire 2, Succeed 1 Undefined]
        (exec [Push (1::nat), Unshift 2, Push 3, Fire 0] (fresh 0)))) = [entryFor 2 1]"
  using every_entry_has_its_step
    [of "exec [Push (1::nat), Unshift 2, Push 3, Fire 0] (fresh 0)"
        "[Push (1::nat), Unshift 2, Push 3, Fire 0]" 0 1
        "exec (sweep (\<lambda>k. (k \<noteq> 1, Num (int k))) 3)
           (exec [Push (1::nat), Unshift 2, Push 3, Fire 0] (fresh 0))"
        "\<lambda>k. (k \<noteq> 1, Num (int k))" 0 "entryFor 2 1"
        "[Fire 1, Push 4, Throw 1, Fire 2, Succeed 1 Undefined]"]
  by (simp add: run_simps sweep_def upt_rec)

section \<open>The promise implementation: configuration and its absence\<close>

text \<open>
  C6. With no promise implementation ever configured and none in the host,
  \<open>LocalPromise\<close> is undefined when the queue is constructed. The constructor reads
  \<open>LocalPromise.resolve\<close> and throws a TypeError there: the failure comes before any
  \<open>push\<close> or \<open>unshift\<close>, and is not the configuration error that the guard of
  \<open>_changeQueue\<close> would raise on a queue, had one been built.
\<close>

theorem constructor_fails_without_promise:
  "Pique (loaded None :: nat globals) = Inl TypeError
   \<and> push (1::nat) (\<lparr>globalPromise = [], promiseFunctionArray = []\<rparr>, loaded None) =
       Inl ConfigError
   \<and> unshift (1::nat) (\<lparr>globalPromise = [], promiseFunctionArray = []\<rparr>, loaded None) =
       Inl ConfigError"
  by (simp add: Pique_def loaded_def push_None unshift_None)

text \<open>
  C7. \<open>configure\<close> writes the one module variable and nothing else. From then on, and
  until the next \<open>configure\<close>, whatever happens on whatever queue leaves the variable
  as it is, and \<open>push\<close> and \<open>unshift\<close> on any queue, built before or after the call,
  return a promise made by the configured constructor; a queue has no field that could
  say otherwise. With the variable set to undefined, every submission on every queue
  throws. (This is about the constructor that the operations call. The links of a
  chain come from \<open>then\<close> of the promise before them, not from \<open>LocalPromise\<close>; the
  model does not record which implementation made a link.)
\<close>

theorem configure_is_process_wide:
  "LocalPromise (configure c m) = c
   \<and> promises (configure c m) = promises m
   \<and> invoked (configure c m) = invoked m
   \<and> settlements (configure c m) = settlements m
   \<and> (\<forall>t self. (\<forall>ev \<in> set t. \<not> isConfigure ev) \<longrightarrow>
         LocalPromise (snd (exec t (self, configure c m))) = c)
   \<and> (\<forall>self f m'. LocalPromise m' = c \<longrightarrow>
         (case c of
            None \<Rightarrow> push f (self, m') = Inl ConfigError
                    \<and> unshift f (self, m') = Inl ConfigError
          | Some P \<Rightarrow>
              (\<exists>p w. push f (self, m') = Inr (p, w) \<and> p = length (promises m')
                     \<and> promises (snd w) ! p = \<lparr>maker = P, state = Pending\<rparr>)
              \<and> (\<exists>p w. unshift f (self, m') = Inr (p, w) \<and> p = length (promises m')
                     \<and> promises (snd w) ! p = \<lparr>maker = P, state = Pending\<rparr>)))"
proof -
  have kept: "\<forall>t self. (\<forall>ev \<in> set t. \<not> isConfigure ev) \<longrightarrow>
         LocalPromise (snd (exec t (self, configure c m))) = c"
    using LocalPromise_exec [where w = "(self, configure c m)" for self]
    by (simp add: configure_def)
  have used: "\<forall>self f m'. LocalPromise m' = c \<longrightarrow>
         (case c of
            None \<Rightarrow> push f (self, m') = Inl ConfigError
                    \<and> unshift f (self, m') = Inl ConfigError
          | Some P \<Rightarrow>
              (\<exists>p w. push f (self, m') = Inr (p, w) \<and> p = length (promises m')
                     \<and> promises (snd w) ! p = \<lparr>maker = P, state = Pending\<rparr>)
              \<and> (\<exists>p w. unshift f (self, m') = Inr (p, w) \<and> p = length (promises m')
                     \<and> promises (snd w) ! p = \<lparr>maker = P, state = Pending\<rparr>))"
    by (cases c) (simp_all add: push_None unshift_None push_Some unshift_Some)
  from kept used show ?thesis
    by (simp add: configure_def)
qed

theorem configure_is_process_wide_witness:
  "LocalPromise (configure (Some 1)
       (\<lparr>LocalPromise = Some 0, promises = [\<lparr>maker = 0, state = Pending\<rparr>],
          invoked = [], settlements = []\<rparr> :: nat globals)) = Some 1
   \<and> push (5::nat) (\<lparr>globalPromise = [Waiting], promiseFunctionArray = [entryFor 4 0]\<rparr>,
        configure (Some 1)
          \<lparr>LocalPromise = Some 0, promises = [\<lparr>maker = 0, state = Pending\<rparr>],
             invoked = [], settlements = []\<rparr>) =
       Inr (1, \<lparr>globalPromise = [Waiting, Waiting],
                promiseFunctionArray = [entryFor 4 0, entryFor 5 1]\<rparr>,
            \<lparr>LocalPromise = Some 1,
               promises = [\<lparr>maker = 0, state = Pending\<rparr>, \<lparr>maker = 1, state = Pending\<rparr>],
               invoked = [], settlements = []\<rparr>)
   \<and> unshift (6::nat) (\<lparr>globalPromise = [], promiseFunctionArray = []\<rparr>,
        configure (Some 1)
          \<lparr>LocalPromise = Some 0, promises = [\<lparr>maker = 0, state = Pending\<rparr>],
             invoked = [], settlements = []\<rparr>) =
       Inr (1, \<lparr>globalPromise = [Waiting], promiseFunctionArray = [entryFor 6 1]\<rparr>,
            \<lparr>LocalPromise = Some 1,
               promises = [\<lparr>maker = 0, state = Pending\<rparr>, \<lparr>maker = 1, state = Pending\<rparr>],
               invoked = [], settlements = []\<rparr>)
   \<and> LocalPromise (snd (exec [Push (5::nat), Fire 0, Succeed 0 Undefined, Unshift 6]
        (\<lparr>globalPromise = [Waiting], promiseFunctionArray = [entryFor 4 0]\<rparr>,
         configure (Some 1)
          \<lparr>LocalPromise = Some 0, promises = [\<lparr>maker = 0, state = Pending\<rparr>],
             invoked = [], settlements = []\<rparr>))) = Some 1
   \<and> push (5::nat) (\<lparr>globalPromise = [Waiting], promiseFunctionArray = [entryFor 4 0]\<rparr>,
        configure None
          \<lparr>LocalPromise = Some 0, promises = [\<lparr>maker = 0, state = Pending\<rparr>],
             invoked = [], settlements = []\<rparr>) = Inl ConfigError"
  using configure_is_process_wide [of "Some 1"
      "\<lparr>LocalPromise = Some 0, promises = [\<lparr>maker = 0, state = Pending\<rparr>],
         invoked = [], settlements = []\<rparr> :: nat globals"]
    configure_is_process_wide [of None
      "\<lparr>LocalPromise = Some 0, promises = [\<lparr>maker = 0, state = Pending\<rparr>],
         invoked = [], settlements = []\<rparr> :: nat globals"]
  by (simp add: run_simps)

section \<open>The copy in the bundle\<close>

text \<open>
  C10. The bundled and the unbundled \<open>_changeQueue\<close> return the same promise and make
  the same changes whenever a promise implementation is there, and both throw, having
  changed nothing, exactly when there is none. (The exception is not the same object:
  the bundle's comes from \<open>new\<close> on undefined, the module's from its guard.)
\<close>

theorem changeQueue_bundled_agrees:
  "(LocalPromise (snd w) \<noteq> None \<longrightarrow> changeQueue_bundled f g w = changeQueue f g w)
   \<and> (isl (changeQueue_bundled f g w) \<longleftrightarrow> isl (changeQueue f g w))
   \<and> (isl (changeQueue f g w) \<longleftrightarrow> LocalPromise (snd w) = None)"
  by (cases w; cases "LocalPromise (snd w)")
     (simp_all add: changeQueue_def changeQueue_bundled_def Let_def)

theorem changeQueue_bundled_agrees_witness:
  "changeQueue_bundled (5::nat)
       (\<lambda>v self. self\<lparr>promiseFunctionArray := v # promiseFunctionArray self\<rparr>) (fresh 0) =
     changeQueue 5
       (\<lambda>v self. self\<lparr>promiseFunctionArray := v # promiseFunctionArray self\<rparr>) (fresh 0)
   \<and> changeQueue (5::nat)
       (\<lambda>v self. self\<lparr>promiseFunctionArray := v # promiseFunctionArray self\<rparr>) (fresh 0) =
     Inr (0, \<lparr>globalPromise = [Waiting], promiseFunctionArray = [entryFor 5 0]\<rparr>,
          \<lparr>LocalPromise = Some 0, promises = [\<lparr>maker = 0, state = Pending\<rparr>],
             invoked = [], settlements = []\<rparr>)
   \<and> isl (changeQueue_bundled (5::nat)
       (\<lambda>v self. self\<lparr>promiseFunctionArray := v # promiseFunctionArray self\<rparr>)
       (\<lparr>globalPromise = [], promiseFunctionArray = []\<rparr>, loaded None))
   \<and> isl (changeQueue (5::nat)
       (\<lambda>v self. self\<lparr>promiseFunctionArray := v # promiseFunctionArray self\<rparr>)
       (\<lparr>globalPromise = [], promiseFunctionArray = []\<rparr>, loaded None))"
  using changeQueue_bundled_agrees [of "fresh 0" "5::nat"
      "\<lambda>v self. self\<lparr>promiseFunctionArray := v # promiseFunctionArray self\<rparr>"]
    changeQueue_bundled_agrees [of "(\<lparr>globalPromise = [], promiseFunctionArray = []\<rparr>, loaded None)"
      "5::nat" "\<lambda>v self. self\<lparr>promiseFunctionArray := v # promiseFunctionArray self\<rparr>"]
  by (simp add: run_simps changeQueue_bundled_def)

end
